theory Spec2Isabelle
  imports Complex_Main "HOL-Library.Word" "HOL-Library.Multiset" "HOL-Library.Log_Nat"
begin

unbundle bit_operations_syntax

section \<open>The program: a Monte-Carlo permutation test on bar data\<close>

text \<open>
  A shallow embedding of \<^verbatim>\<open>MCPT_BARS.CPP\<close>.

  \<^item> \<^verbatim>\<open>unsigned int\<close> is \<open>32 word\<close>, \<^verbatim>\<open>unsigned _int64\<close> is \<open>64 word\<close>,
    \<^verbatim>\<open>unsigned char\<close> is \<open>8 word\<close>: their arithmetic wraps as in C.
  \<^item> \<^verbatim>\<open>int\<close> loop counters and sizes are \<open>int\<close>; none of them can overflow on arrays
    that fit in memory.
  \<^item> \<^verbatim>\<open>double\<close> is \<open>real\<close>, and every arithmetic operation of the generator, the
    optimiser and the permutation routines rounds its result to the nearest
    \<^verbatim>\<open>double\<close> (\<open>fl\<close>, below), as IEEE 754 arithmetic does; a literal such as
    \<^verbatim>\<open>0.005\<close> is the \<^verbatim>\<open>double\<close> nearest to it. There is no NaN, no infinity and no
    negative zero. The statistics that \<^verbatim>\<open>main\<close> derives from the returns of the trials
    (lines 449--518: the trend, the biases, the quotients of the report) are not rounded;
    where \<^verbatim>\<open>main\<close> can divide by zero, which gives a NaN or an infinity and no trap, the
    model's division returns \<open>None\<close> (\<open>fdiv\<close>).
  \<^item> \<^verbatim>\<open>double *\<close> arrays are \<open>real list\<close> indexed by \<open>int\<close>; an access outside the
    array, undefined in C, is the error \<open>OutOfBounds\<close>.
  \<^item> a local variable that is read before it is assigned holds an unspecified value,
    which the model takes as a parameter.
\<close>

subsection \<open>The arithmetic of \<^verbatim>\<open>double\<close>\<close>

text \<open>
  A \<^verbatim>\<open>double\<close> is 0 or \<open>\<plusminus> m * 2^k\<close> with a significand \<open>m\<close> of 53 bits,
  \<open>2^52 \<le> m < 2^53\<close>. \<open>rne y\<close> is the integer nearest to \<open>y\<close>, the even one of the two
  when \<open>y\<close> lies halfway. For \<open>x > 0\<close>, \<open>ilog2 x\<close> is the exponent \<open>e\<close> with
  \<open>2^e \<le> x < 2^(e+1)\<close>. \<open>fl x\<close> is the \<^verbatim>\<open>double\<close> nearest to \<open>x\<close>, ties to the even
  significand: \<open>x\<close> is scaled to put 53 bits before the point, rounded to an integer and
  scaled back. The exponent \<open>k\<close> is not bounded: a result beyond the largest
  \<^verbatim>\<open>double\<close> (about \<open>1.8e308\<close>) is not turned into an infinity, and a result below
  the smallest normal one (about \<open>2.2e-308\<close>) keeps its 53 bits.
\<close>

definition rne :: "real \<Rightarrow> int" where
  "rne y = (let f = \<lfloor>y\<rfloor>; d = y - of_int f in
            if d < 1 / 2 then f else if 1 / 2 < d then f + 1 else if even f then f else f + 1)"

definition ilog2 :: "real \<Rightarrow> int" where
  "ilog2 x = (if 1 \<le> x then bitlen \<lfloor>x\<rfloor> - 1 else - bitlen (\<lceil>1 / x\<rceil> - 1))"

definition fl :: "real \<Rightarrow> real" where
  "fl x = (if x = 0 then 0 else
             let k = ilog2 \<bar>x\<bar> - 52 in of_int (rne (x / 2 powi k)) * 2 powi k)"

subsection \<open>The random generator (lines 37--72)\<close>

text \<open>
  The file-level statics \<^verbatim>\<open>Q[256]\<close>, \<^verbatim>\<open>carry\<close>, \<^verbatim>\<open>MWC256_initialized\<close>,
  \<^verbatim>\<open>MWC256_seed\<close> and the function-level static \<^verbatim>\<open>i\<close> of \<^verbatim>\<open>RAND32M\<close> are the
  generator's whole state.
\<close>

record mwc256 =
  Q :: "32 word list"
  carry :: "32 word"
  MWC256_initialized :: bool
  MWC256_seed :: "32 word"
  RAND32M_i :: "8 word"

text \<open>The state a program starts in: the static initialisers (\<^verbatim>\<open>Q\<close> is zero-filled).\<close>

definition mwc256_start :: mwc256 where
  "mwc256_start =
     \<lparr>Q = replicate 256 0, carry = 362436, MWC256_initialized = False,
      MWC256_seed = 123456789, RAND32M_i = 255\<rparr>"

definition RAND32M_seed :: "32 word \<Rightarrow> mwc256 \<Rightarrow> mwc256" where
  "RAND32M_seed iseed g = g\<lparr>MWC256_seed := iseed, MWC256_initialized := False\<rparr>"

text \<open>
  The initialisation loop \<^verbatim>\<open>for (k=0 ; k<256 ; k++) { j = 69069 * j + 12345 ; Q[k] = j ; }\<close>
  with \<open>k\<close> counting up.
\<close>

function fill_Q :: "nat \<Rightarrow> 32 word \<Rightarrow> 32 word list \<Rightarrow> 32 word list" where
  "fill_Q k j q =
     (if k < 256 then
        (let j' = 69069 * j + 12345 in fill_Q (k + 1) j' (q[k := j']))
      else q)"
  by pat_completeness auto
termination
  by (relation "measure (\<lambda>(k, j, q). 256 - k)") auto

definition RAND32M :: "mwc256 \<Rightarrow> 32 word \<times> mwc256" where
  "RAND32M g =
     (let g1 = (if \<not> MWC256_initialized g
                then g\<lparr>MWC256_initialized := True, Q := fill_Q 0 (MWC256_seed g) (Q g)\<rparr>
                else g);
          a = (809430660 :: 64 word);
          i = RAND32M_i g1 + 1;
          t = a * ucast (Q g1 ! unat i) + ucast (carry g1);
          c = (ucast (drop_bit 32 t) :: 32 word);
          x = (ucast (t AND 0xFFFFFFFF) :: 32 word)
      in (x, g1\<lparr>carry := c, Q := (Q g1)[unat i := x], RAND32M_i := i\<rparr>))"

text \<open>
  \<^verbatim>\<open>unifrand\<close>: \<^verbatim>\<open>mult = 1.0 / 0xFFFFFFFF ; return mult * RAND32M()\<close>. The arithmetic
  on the drawn word is \<open>unifrand_of\<close>: the quotient is rounded, then the product (the
  word itself is converted without rounding).
\<close>

definition unifrand_of :: "32 word \<Rightarrow> real" where
  "unifrand_of x = (let mult = fl (1 / 0xFFFFFFFF) in fl (mult * real_of_int (uint x)))"

definition unifrand :: "mwc256 \<Rightarrow> real \<times> mwc256" where
  "unifrand g = (let (x, g') = RAND32M g in (unifrand_of x, g'))"

text \<open>\<open>draws n g\<close>: the first \<open>n\<close> outputs of successive calls of \<^verbatim>\<open>RAND32M\<close>.\<close>

fun draws :: "nat \<Rightarrow> mwc256 \<Rightarrow> 32 word list" where
  "draws 0 g = []"
| "draws (Suc n) g = (let (x, g') = RAND32M g in x # draws n g')"

subsection \<open>Arrays and errors\<close>

text \<open>
  \<open>OutOfBounds\<close>: an array access outside the array (undefined behaviour in C).
  \<open>Exit1\<close>: the program's own \<^verbatim>\<open>exit ( 1 )\<close> after an error message.
\<close>

datatype error = OutOfBounds | Exit1

definition bind_err :: "error + 'a \<Rightarrow> ('a \<Rightarrow> error + 'b) \<Rightarrow> error + 'b" where
  "bind_err m f = (case m of Inl e \<Rightarrow> Inl e | Inr x \<Rightarrow> f x)"

text \<open>\<open>rd a i\<close> is the read \<^verbatim>\<open>a[i]\<close>, \<open>wr a i v\<close> the assignment \<^verbatim>\<open>a[i] = v\<close>.\<close>

definition rd :: "real list \<Rightarrow> int \<Rightarrow> error + real" where
  "rd a i = (if 0 \<le> i \<and> i < int (length a) then Inr (a ! nat i) else Inl OutOfBounds)"

definition wr :: "real list \<Rightarrow> int \<Rightarrow> real \<Rightarrow> error + real list" where
  "wr a i v = (if 0 \<le> i \<and> i < int (length a) then Inr (a[nat i := v]) else Inl OutOfBounds)"

text \<open>
  A \<^verbatim>\<open>double\<close> division: no real number results from a division by zero (IEEE
  arithmetic gives a NaN or an infinity and goes on).
\<close>

definition fdiv :: "real \<Rightarrow> real \<Rightarrow> real option" where
  "fdiv x y = (if y = 0 then None else Some (x / y))"

text \<open>The cast \<^verbatim>\<open>(int) x\<close> of a \<^verbatim>\<open>double\<close> truncates towards zero.\<close>

definition trunc_int :: "real \<Rightarrow> int" where
  "trunc_int x = (if 0 \<le> x then \<lfloor>x\<rfloor> else \<lceil>x\<rceil>)"

subsection \<open>The optimiser \<^verbatim>\<open>opt_params\<close> (lines 84--139)\<close>

text \<open>
  The body of the innermost loop (lines 112--122) at index \<open>i\<close>; \<open>acc\<close> is
  \<^verbatim>\<open>(total_return, nl)\<close>. Each of the three differences and the sum
  \<^verbatim>\<open>total_return += ret\<close> is rounded.
\<close>

definition trial_case ::
  "int \<Rightarrow> real list \<Rightarrow> real list \<Rightarrow> real \<Rightarrow> real \<Rightarrow> int \<Rightarrow> real \<times> int \<Rightarrow> error + real \<times> int"
where
  "trial_case lookback open' close rise_thresh drop_thresh i acc =
     bind_err (rd close i) (\<lambda>ci.
     bind_err (rd close (i - lookback)) (\<lambda>cl.
     bind_err (rd close (i - 1)) (\<lambda>cp.
       let rise = fl (ci - cl); drop = fl (cp - ci) in
       if rise \<ge> rise_thresh \<and> drop \<ge> drop_thresh then
         bind_err (rd open' (i + 2)) (\<lambda>o2.
         bind_err (rd open' (i + 1)) (\<lambda>o1.
           let ret = fl (o2 - o1) in Inr (fl (fst acc + ret), snd acc + 1)))
       else
         (let ret = 0 in Inr (fl (fst acc + ret), snd acc)))))"

text \<open>\<^verbatim>\<open>for (i=lookback ; i<ncases-2 ; i++)\<close>, entered at \<open>i\<close>.\<close>

function trial_loop ::
  "int \<Rightarrow> int \<Rightarrow> int \<Rightarrow> real list \<Rightarrow> real list \<Rightarrow> real \<Rightarrow> real \<Rightarrow> real \<times> int \<Rightarrow> error + real \<times> int"
where
  "trial_loop i ncases lookback open' close rise_thresh drop_thresh acc =
     (if i < ncases - 2 then
        (case trial_case lookback open' close rise_thresh drop_thresh i acc of
           Inl e \<Rightarrow> Inl e
         | Inr acc' \<Rightarrow> trial_loop (i + 1) ncases lookback open' close rise_thresh drop_thresh acc')
      else Inr acc)"
  by pat_completeness auto
termination
  by (relation "measure (\<lambda>(i, ncases, _). nat (ncases - 2 - i))") auto

text \<open>
  The state of the grid search is \<^verbatim>\<open>best_perf\<close> with the three cells the pointers
  \<^verbatim>\<open>opt_rise\<close>, \<^verbatim>\<open>opt_drop\<close> and \<^verbatim>\<open>nlong\<close> point to: they are written only when a trial
  breaks the record, and keep what the caller had in them otherwise. The thresholds are
  the rounded products \<^verbatim>\<open>irise * 0.005\<close> and \<^verbatim>\<open>idrop * .0005\<close> of the counter and the
  \<^verbatim>\<open>double\<close> nearest to the literal.
\<close>

type_synonym opt_cells = "real \<times> real \<times> int"

function idrop_loop ::
  "int \<Rightarrow> int \<Rightarrow> int \<Rightarrow> int \<Rightarrow> real list \<Rightarrow> real list \<Rightarrow> real \<times> opt_cells \<Rightarrow> error + real \<times> opt_cells"
where
  "idrop_loop idrop irise ncases lookback open' close st =
     (if idrop \<le> 50 then
        (let rise_thresh = fl (real_of_int irise * fl 0.005);
             drop_thresh = fl (real_of_int idrop * fl 0.0005) in
         case trial_loop lookback ncases lookback open' close rise_thresh drop_thresh (0, 0) of
           Inl e \<Rightarrow> Inl e
         | Inr (total_return, nl) \<Rightarrow>
             idrop_loop (idrop + 1) irise ncases lookback open' close
               (if total_return > fst st then (total_return, rise_thresh, drop_thresh, nl)
                else st))
      else Inr st)"
  by pat_completeness auto
termination
  by (relation "measure (\<lambda>(idrop, _). nat (51 - idrop))") auto

function irise_loop ::
  "int \<Rightarrow> int \<Rightarrow> int \<Rightarrow> real list \<Rightarrow> real list \<Rightarrow> real \<times> opt_cells \<Rightarrow> error + real \<times> opt_cells"
where
  "irise_loop irise ncases lookback open' close st =
     (if irise \<le> 50 then
        (case idrop_loop 1 irise ncases lookback open' close st of
           Inl e \<Rightarrow> Inl e
         | Inr st' \<Rightarrow> irise_loop (irise + 1) ncases lookback open' close st')
      else Inr st)"
  by pat_completeness auto
termination
  by (relation "measure (\<lambda>(irise, _). nat (51 - irise))") auto

text \<open>
  \<open>opt_params ncases lookback open' close cells\<close> returns \<^verbatim>\<open>best_perf\<close> and the cells
  \<^verbatim>\<open>(*opt_rise, *opt_drop, *nlong)\<close> after the call; \<open>cells\<close> is what they held before.
  \<^verbatim>\<open>best_perf\<close> starts at \<^verbatim>\<open>-1.e60\<close>, the \<^verbatim>\<open>double\<close> nearest to \<open>10^60\<close>, negated.
\<close>

definition opt_params ::
  "int \<Rightarrow> int \<Rightarrow> real list \<Rightarrow> real list \<Rightarrow> opt_cells \<Rightarrow> error + real \<times> opt_cells"
where
  "opt_params ncases lookback open' close cells =
     irise_loop 1 ncases lookback open' close (- fl (10 ^ 60), cells)"

subsection \<open>The permutation routines (lines 161--242)\<close>

text \<open>The four price arrays and the four arrays of changes (the work area).\<close>

record prices =
  p_open :: "real list"
  p_high :: "real list"
  p_low :: "real list"
  p_close :: "real list"

record changes =
  rel_open :: "real list"
  rel_high :: "real list"
  rel_low :: "real list"
  rel_close :: "real list"

text \<open>
  The body of the loop of \<^verbatim>\<open>prepare_permute\<close> (lines 176--179): four rounded
  differences.
\<close>

definition prepare_case :: "int \<Rightarrow> prices \<Rightarrow> changes \<Rightarrow> error + changes" where
  "prepare_case icase p c =
     bind_err (rd (p_open p) icase) (\<lambda>o1.
     bind_err (rd (p_close p) (icase - 1)) (\<lambda>c0.
     bind_err (wr (rel_open c) (icase - 1) (fl (o1 - c0))) (\<lambda>ro.
     bind_err (rd (p_high p) icase) (\<lambda>h1.
     bind_err (rd (p_open p) icase) (\<lambda>o2.
     bind_err (wr (rel_high c) (icase - 1) (fl (h1 - o2))) (\<lambda>rh.
     bind_err (rd (p_low p) icase) (\<lambda>l1.
     bind_err (rd (p_open p) icase) (\<lambda>o3.
     bind_err (wr (rel_low c) (icase - 1) (fl (l1 - o3))) (\<lambda>rl.
     bind_err (rd (p_close p) icase) (\<lambda>c1.
     bind_err (rd (p_open p) icase) (\<lambda>o4.
     bind_err (wr (rel_close c) (icase - 1) (fl (c1 - o4))) (\<lambda>rc.
       Inr \<lparr>rel_open = ro, rel_high = rh, rel_low = rl, rel_close = rc\<rparr>))))))))))))"

text \<open>\<^verbatim>\<open>for (icase=1 ; icase<nc ; icase++)\<close> of \<^verbatim>\<open>prepare_permute\<close>, entered at \<open>icase\<close>.\<close>

function prepare_loop :: "int \<Rightarrow> int \<Rightarrow> prices \<Rightarrow> changes \<Rightarrow> error + changes" where
  "prepare_loop icase nc p c =
     (if icase < nc then
        (case prepare_case icase p c of
           Inl e \<Rightarrow> Inl e
         | Inr c' \<Rightarrow> prepare_loop (icase + 1) nc p c')
      else Inr c)"
  by pat_completeness auto
termination
  by (relation "measure (\<lambda>(icase, nc, _). nat (nc - icase))") auto

text \<open>\<open>c\<close> is the work area as the caller hands it over; the result is the work area filled.\<close>

definition prepare_permute :: "int \<Rightarrow> prices \<Rightarrow> changes \<Rightarrow> error + changes" where
  "prepare_permute nc p c = prepare_loop 1 nc p c"

text \<open>
  Lines 206--208: \<^verbatim>\<open>j = (int) (unifrand() * i) ; if (j >= i) j = i - 1 ;\<close> on the value
  \<open>u\<close> that \<^verbatim>\<open>unifrand\<close> returned. The product is rounded before the cast.
\<close>

definition draw_j :: "real \<Rightarrow> int \<Rightarrow> int" where
  "draw_j u i = (let j = trunc_int (fl (u * real_of_int i)) in if j \<ge> i then i - 1 else j)"

text \<open>\<^verbatim>\<open>dtemp = a[i] ; a[i] = a[j] ; a[j] = dtemp ;\<close>\<close>

definition swap :: "real list \<Rightarrow> int \<Rightarrow> int \<Rightarrow> error + real list" where
  "swap a i j =
     bind_err (rd a i) (\<lambda>dtemp.
     bind_err (rd a j) (\<lambda>aj.
     bind_err (wr a i aj) (\<lambda>a1.
       wr a1 j dtemp)))"

text \<open>The first \<^verbatim>\<open>while (i > 1)\<close> loop (lines 205--213), entered with \<open>i\<close> left to shuffle.\<close>

function shuffle_open ::
  "int \<Rightarrow> int \<Rightarrow> real list \<Rightarrow> mwc256 \<Rightarrow> error + real list \<times> mwc256"
where
  "shuffle_open i preserve_OO ro g =
     (if i > 1 then
        (let (u, g') = unifrand g;
             j = draw_j u i;
             i' = i - 1 in
         case swap ro (i' + preserve_OO) (j + preserve_OO) of
           Inl e \<Rightarrow> Inl e
         | Inr ro' \<Rightarrow> shuffle_open i' preserve_OO ro' g')
      else Inr (ro, g))"
  by pat_completeness auto
termination
  by (relation "measure (\<lambda>(i, _). nat i)") auto

text \<open>The three swaps of the second loop (lines 223--231), all at the same \<open>i\<close> and \<open>j\<close>.\<close>

definition swap3 :: "changes \<Rightarrow> int \<Rightarrow> int \<Rightarrow> error + changes" where
  "swap3 c i j =
     bind_err (swap (rel_high c) i j) (\<lambda>rh.
     bind_err (swap (rel_low c) i j) (\<lambda>rl.
     bind_err (swap (rel_close c) i j) (\<lambda>rc.
       Inr (c\<lparr>rel_high := rh, rel_low := rl, rel_close := rc\<rparr>))))"

text \<open>The second \<^verbatim>\<open>while (i > 1)\<close> loop (lines 218--232).\<close>

function shuffle_triplet :: "int \<Rightarrow> changes \<Rightarrow> mwc256 \<Rightarrow> error + changes \<times> mwc256" where
  "shuffle_triplet i c g =
     (if i > 1 then
        (let (u, g') = unifrand g;
             j = draw_j u i;
             i' = i - 1 in
         case swap3 c i' j of
           Inl e \<Rightarrow> Inl e
         | Inr c' \<Rightarrow> shuffle_triplet i' c' g')
      else Inr (c, g))"
  by pat_completeness auto
termination
  by (relation "measure (\<lambda>(i, _). nat i)") auto

text \<open>The body of the rebuilding loop (lines 237--240): four rounded sums.\<close>

definition rebuild_case :: "int \<Rightarrow> prices \<Rightarrow> changes \<Rightarrow> error + prices" where
  "rebuild_case icase p c =
     bind_err (rd (p_close p) (icase - 1)) (\<lambda>c0.
     bind_err (rd (rel_open c) (icase - 1)) (\<lambda>ro.
     bind_err (wr (p_open p) icase (fl (c0 + ro))) (\<lambda>op.
     bind_err (rd op icase) (\<lambda>o1.
     bind_err (rd (rel_high c) (icase - 1)) (\<lambda>rh.
     bind_err (wr (p_high p) icase (fl (o1 + rh))) (\<lambda>hi.
     bind_err (rd op icase) (\<lambda>o2.
     bind_err (rd (rel_low c) (icase - 1)) (\<lambda>rl.
     bind_err (wr (p_low p) icase (fl (o2 + rl))) (\<lambda>lo.
     bind_err (rd op icase) (\<lambda>o3.
     bind_err (rd (rel_close c) (icase - 1)) (\<lambda>rc.
     bind_err (wr (p_close p) icase (fl (o3 + rc))) (\<lambda>cl.
       Inr \<lparr>p_open = op, p_high = hi, p_low = lo, p_close = cl\<rparr>))))))))))))"

function rebuild_loop :: "int \<Rightarrow> int \<Rightarrow> prices \<Rightarrow> changes \<Rightarrow> error + prices" where
  "rebuild_loop icase nc p c =
     (if icase < nc then
        (case rebuild_case icase p c of
           Inl e \<Rightarrow> Inl e
         | Inr p' \<Rightarrow> rebuild_loop (icase + 1) nc p' c)
      else Inr p)"
  by pat_completeness auto
termination
  by (relation "measure (\<lambda>(icase, nc, _). nat (nc - icase))") auto

text \<open>
  The shuffling step of \<^verbatim>\<open>do_permute\<close> (lines 199--232): both loops, on the changes
  alone.
\<close>

definition shuffle :: "int \<Rightarrow> int \<Rightarrow> changes \<Rightarrow> mwc256 \<Rightarrow> error + changes \<times> mwc256" where
  "shuffle nc preserve_OO c g =
     (let preserve_OO = (if preserve_OO \<noteq> 0 then 1 else preserve_OO) in
      bind_err (shuffle_open (nc - 1 - preserve_OO) preserve_OO (rel_open c) g) (\<lambda>(ro, g1).
        shuffle_triplet (nc - 1 - preserve_OO) (c\<lparr>rel_open := ro\<rparr>) g1))"

text \<open>\<^verbatim>\<open>do_permute\<close>: the shuffling step, then the prices rebuilt from the changes.\<close>

definition do_permute ::
  "int \<Rightarrow> int \<Rightarrow> prices \<Rightarrow> changes \<Rightarrow> mwc256 \<Rightarrow> error + prices \<times> changes \<times> mwc256"
where
  "do_permute nc preserve_OO p c g =
     bind_err (shuffle nc preserve_OO c g) (\<lambda>(c', g').
     bind_err (rebuild_loop 1 nc p c') (\<lambda>p'.
       Inr (p', c', g')))"

text \<open>\<open>n\<close> successive calls of \<^verbatim>\<open>do_permute\<close> on the same arrays.\<close>

fun permute_cycles ::
  "nat \<Rightarrow> int \<Rightarrow> int \<Rightarrow> prices \<Rightarrow> changes \<Rightarrow> mwc256 \<Rightarrow> error + prices \<times> changes \<times> mwc256"
where
  "permute_cycles 0 nc preserve_OO p c g = Inr (p, c, g)"
| "permute_cycles (Suc n) nc preserve_OO p c g =
     (case do_permute nc preserve_OO p c g of
        Inl e \<Rightarrow> Inl e
      | Inr (p', c', g') \<Rightarrow> permute_cycles n nc preserve_OO p' c' g')"

subsection \<open>The main routine from line 449: the permutation test\<close>

text \<open>
  The model starts where the market file has been read: \<open>p\<close> holds the \<^verbatim>\<open>nprices\<close> log
  prices of each kind. The line printed for a replication (line 486):
\<close>

record rep_line =
  l_irep :: int
  l_opt_return :: real
  l_opt_rise :: real
  l_opt_drop :: real
  l_nlong :: int
  l_trend_component :: real
  l_training_bias :: real

text \<open>
  The variables of \<^verbatim>\<open>main\<close> that live across replications, with what has been printed.
  \<open>mcpt_count\<close> is the variable \<^verbatim>\<open>count\<close>; \<open>opt_cells\<close> are \<^verbatim>\<open>opt_rise\<close>, \<^verbatim>\<open>opt_drop\<close>
  and \<^verbatim>\<open>nlong\<close>.
\<close>

record main_vars =
  v_prices :: prices
  v_changes :: changes
  v_rng :: mwc256
  v_cells :: opt_cells
  original :: real
  original_trend_component :: real
  original_nlong :: int
  mcpt_count :: int
  mean_training_bias :: real
  printed :: "rep_line list"

text \<open>
  The values that \<^verbatim>\<open>opt_rise\<close>, \<^verbatim>\<open>opt_drop\<close>, \<^verbatim>\<open>nlong\<close>, \<^verbatim>\<open>original\<close>,
  \<^verbatim>\<open>original_trend_component\<close>, \<^verbatim>\<open>original_nlong\<close>, \<^verbatim>\<open>count\<close> and \<^verbatim>\<open>mean_training_bias\<close>
  hold before their first assignment: \<^verbatim>\<open>main\<close> does not initialise them.
\<close>

record uninit =
  u_cells :: opt_cells
  u_original :: real
  u_original_trend_component :: real
  u_original_nlong :: int
  u_count :: int
  u_mean_training_bias :: real

text \<open>
  The pointers \<^verbatim>\<open>open+lookback\<close>, \<^verbatim>\<open>high+lookback\<close>, \<^verbatim>\<open>low+lookback\<close> and
  \<^verbatim>\<open>close+lookback\<close>: the arrays from index \<open>lookback\<close> on. What the callee writes through
  them lands in the arrays themselves (\<open>unwindow\<close>).
\<close>

definition window :: "int \<Rightarrow> prices \<Rightarrow> error + prices" where
  "window lookback p =
     (if 0 \<le> lookback \<and> lookback \<le> int (length (p_open p)) \<and>
         lookback \<le> int (length (p_high p)) \<and> lookback \<le> int (length (p_low p)) \<and>
         lookback \<le> int (length (p_close p))
      then Inr \<lparr>p_open = drop (nat lookback) (p_open p), p_high = drop (nat lookback) (p_high p),
                p_low = drop (nat lookback) (p_low p), p_close = drop (nat lookback) (p_close p)\<rparr>
      else Inl OutOfBounds)"

definition unwindow :: "int \<Rightarrow> prices \<Rightarrow> prices \<Rightarrow> prices" where
  "unwindow lookback p w =
     \<lparr>p_open = take (nat lookback) (p_open p) @ p_open w,
      p_high = take (nat lookback) (p_high p) @ p_high w,
      p_low = take (nat lookback) (p_low p) @ p_low w,
      p_close = take (nat lookback) (p_close p) @ p_close w\<rparr>"

text \<open>One pass of the loop \<^verbatim>\<open>for (irep=0 ; irep<nreps ; irep++)\<close> (lines 480--502).\<close>

definition mcpt_rep :: "int \<Rightarrow> int \<Rightarrow> int \<Rightarrow> real \<Rightarrow> main_vars \<Rightarrow> error + main_vars" where
  "mcpt_rep irep nprices lookback trend_per_return v =
     bind_err
       (if irep \<noteq> 0 then
          bind_err (window lookback (v_prices v)) (\<lambda>w.
          bind_err (do_permute (nprices - lookback) 1 w (v_changes v) (v_rng v)) (\<lambda>(w', c', g').
            Inr (v\<lparr>v_prices := unwindow lookback (v_prices v) w', v_changes := c', v_rng := g'\<rparr>)))
        else Inr v) (\<lambda>v1.
     bind_err
       (opt_params nprices lookback (p_open (v_prices v1)) (p_close (v_prices v1)) (v_cells v1))
       (\<lambda>(opt_return, opt_rise, opt_drop, nlong).
          let trend_component = real_of_int nlong * trend_per_return;
              v2 = v1\<lparr>v_cells := (opt_rise, opt_drop, nlong),
                     printed := printed v1 @
                       [\<lparr>l_irep = irep, l_opt_return = opt_return, l_opt_rise = opt_rise,
                         l_opt_drop = opt_drop, l_nlong = nlong,
                         l_trend_component = trend_component,
                         l_training_bias = opt_return - trend_component\<rparr>]\<rparr>
          in
          if irep = 0 then
            Inr (v2\<lparr>original := opt_return, original_trend_component := trend_component,
                    original_nlong := nlong, mcpt_count := 1, mean_training_bias := 0\<rparr>)
          else
            (let training_bias = opt_return - trend_component in
             Inr (v2\<lparr>mean_training_bias := mean_training_bias v2 + training_bias,
                     mcpt_count := (if opt_return \<ge> original v2 then mcpt_count v2 + 1
                                    else mcpt_count v2)\<rparr>))))"

function mcpt_loop :: "int \<Rightarrow> int \<Rightarrow> int \<Rightarrow> int \<Rightarrow> real \<Rightarrow> main_vars \<Rightarrow> error + main_vars" where
  "mcpt_loop irep nreps nprices lookback trend_per_return v =
     (if irep < nreps then
        (case mcpt_rep irep nprices lookback trend_per_return v of
           Inl e \<Rightarrow> Inl e
         | Inr v' \<Rightarrow> mcpt_loop (irep + 1) nreps nprices lookback trend_per_return v')
      else Inr v)"
  by pat_completeness auto
termination
  by (relation "measure (\<lambda>(irep, nreps, _). nat (nreps - irep))") auto

text \<open>What the closing lines 509--518 print.\<close>

record summary =
  s_nprices :: int
  s_nreps :: int
  s_lookback :: int
  s_p_value :: "real option"
  s_total_trend :: real
  s_original_nlong :: int
  s_original :: real
  s_trend_component :: real
  s_training_bias :: "real option"
  s_skill :: "real option"
  s_unbiased_return :: "real option"

text \<open>
  Lines 505--518. \<^verbatim>\<open>mean_training_bias /= (nreps - 1)\<close> and
  \<^verbatim>\<open>(double) count / (double) nreps\<close> are divisions by a number the command line
  gave; what is computed from a division by zero is no number either.
\<close>

definition mcpt_report :: "int \<Rightarrow> int \<Rightarrow> int \<Rightarrow> main_vars \<Rightarrow> error + summary" where
  "mcpt_report nreps nprices lookback v =
     (let mtb = fdiv (mean_training_bias v) (real_of_int (nreps - 1));
          unbiased_return = map_option (\<lambda>m. original v - m) mtb;
          skill = map_option (\<lambda>u. u - original_trend_component v) unbiased_return
      in
      bind_err (rd (p_open (v_prices v)) (nprices - 1)) (\<lambda>o_last.
      bind_err (rd (p_open (v_prices v)) (lookback + 1)) (\<lambda>o_first.
        Inr \<lparr>s_nprices = nprices, s_nreps = nreps, s_lookback = lookback,
             s_p_value = fdiv (real_of_int (mcpt_count v)) (real_of_int nreps),
             s_total_trend = o_last - o_first,
             s_original_nlong = original_nlong v, s_original = original v,
             s_trend_component = original_trend_component v,
             s_training_bias = mtb, s_skill = skill,
             s_unbiased_return = unbiased_return\<rparr>)))"

text \<open>
  \<^verbatim>\<open>main\<close> from line 449. \<open>g\<close> is the state of the generator, \<open>u\<close> the unspecified
  values of the uninitialised variables. The work area is \<^verbatim>\<open>malloc\<close>'ed with \<open>nprices\<close>
  cells for each kind of change (its cells are written before they are read, the model
  starts them at 0; a failing \<^verbatim>\<open>malloc\<close> is not modelled). The divisor of
  \<^verbatim>\<open>trend_per_return\<close> is at least 8 after the test of line 449. The result is what is
  printed at the end, with the variables as they are then.
\<close>

definition mcpt ::
  "int \<Rightarrow> int \<Rightarrow> prices \<Rightarrow> mwc256 \<Rightarrow> uninit \<Rightarrow> error + summary \<times> main_vars"
where
  "mcpt lookback nreps p g u =
     (let nprices = int (length (p_open p)) in
      if nprices - lookback < 10 then Inl Exit1
      else
        (let work = replicate (nat nprices) 0;
             c0 = \<lparr>rel_open = work, rel_high = work, rel_low = work, rel_close = work\<rparr>
         in
         bind_err (rd (p_open p) (nprices - 1)) (\<lambda>o_last.
         bind_err (rd (p_open p) (lookback + 1)) (\<lambda>o_first.
           let trend_per_return = (o_last - o_first) / real_of_int (nprices - lookback - 2) in
           bind_err (window lookback p) (\<lambda>w.
           bind_err (prepare_permute (nprices - lookback) w c0) (\<lambda>c.
           bind_err
             (mcpt_loop 0 nreps nprices lookback trend_per_return
                \<lparr>v_prices = p, v_changes = c, v_rng = g, v_cells = u_cells u,
                 original = u_original u,
                 original_trend_component = u_original_trend_component u,
                 original_nlong = u_original_nlong u, mcpt_count = u_count u,
                 mean_training_bias = u_mean_training_bias u, printed = []\<rparr>) (\<lambda>v.
           bind_err (mcpt_report nreps nprices lookback v) (\<lambda>s.
             Inr (s, v)))))))))"

section \<open>Specifications and auxiliary definitions\<close>

text \<open>
  The definitions of this section are not taken from the program: they state what the
  program is to compute, name the invariants of its loops, and give the data of the
  examples.
\<close>

subsection \<open>For the optimiser\<close>

text \<open>
  What the optimiser is to compute, in the words of its specification: the rule fires at
  index \<open>i\<close> when the rise over \<open>lookback\<close> bars and the drop since the bar before both
  reach their thresholds; a trial's return is the sum over the indices from \<open>lookback\<close> to
  \<open>N - 3\<close> of the next open-to-open change where the rule fires; the grid has the
  thresholds \<open>k * 0.005\<close> and \<open>k * 0.0005\<close> for \<open>k\<close> from 1 to 50. The differences, the
  products and the sum are those of \<^verbatim>\<open>double\<close> arithmetic: each is rounded, and the sum
  \<open>fsum\<close> is taken from the first term to the last, rounded after each addition.
\<close>

definition fsum :: "real list \<Rightarrow> real" where
  "fsum xs = foldl (\<lambda>s x. fl (s + x)) 0 xs"

definition spec_long_signal :: "int \<Rightarrow> real list \<Rightarrow> real \<Rightarrow> real \<Rightarrow> int \<Rightarrow> bool" where
  "spec_long_signal lookback close riseThreshold dropThreshold i =
     (fl (close ! nat i - close ! nat (i - lookback)) \<ge> riseThreshold \<and>
      fl (close ! nat (i - 1) - close ! nat i) \<ge> dropThreshold)"

definition spec_return_at ::
  "int \<Rightarrow> real list \<Rightarrow> real list \<Rightarrow> real \<Rightarrow> real \<Rightarrow> int \<Rightarrow> real"
where
  "spec_return_at lookback open' close riseThreshold dropThreshold i =
     (if spec_long_signal lookback close riseThreshold dropThreshold i
      then fl (open' ! nat (i + 2) - open' ! nat (i + 1)) else 0)"

definition spec_cumulative_return ::
  "int \<Rightarrow> int \<Rightarrow> real list \<Rightarrow> real list \<Rightarrow> real \<Rightarrow> real \<Rightarrow> real"
where
  "spec_cumulative_return N lookback open' close riseThreshold dropThreshold =
     fsum (map (spec_return_at lookback open' close riseThreshold dropThreshold) [lookback..N - 3])"

definition spec_long_count :: "int \<Rightarrow> int \<Rightarrow> real list \<Rightarrow> real \<Rightarrow> real \<Rightarrow> int" where
  "spec_long_count N lookback close riseThreshold dropThreshold =
     int (card {i \<in> {lookback..N - 3}.
                  spec_long_signal lookback close riseThreshold dropThreshold i})"

definition spec_rise :: "int \<Rightarrow> real" where
  "spec_rise k = fl (real_of_int k * fl 0.005)"

definition spec_drop :: "int \<Rightarrow> real" where
  "spec_drop k = fl (real_of_int k * fl 0.0005)"

text \<open>
  The grid search. \<open>scanned r d\<close> are the pairs of grid indices that the two outer loops
  have tried when they reach \<open>(r, d)\<close>. \<open>record_of T C cells S st\<close>: after the trials
  \<open>S\<close>, with returns \<open>T\<close> and counts \<open>C\<close>, the state \<open>st\<close> is either untouched (no trial
  beat the initial \<open>-1e60\<close>) or holds the first trial of \<open>S\<close> with the greatest return.
\<close>

definition scanned :: "int \<Rightarrow> int \<Rightarrow> (int \<times> int) set" where
  "scanned r d = {p. 1 \<le> fst p \<and> 1 \<le> snd p \<and> snd p \<le> 50 \<and>
                     (fst p < r \<or> (fst p = r \<and> snd p < d))}"

definition record_of ::
  "(int \<times> int \<Rightarrow> real) \<Rightarrow> (int \<times> int \<Rightarrow> int) \<Rightarrow> opt_cells \<Rightarrow> (int \<times> int) set \<Rightarrow>
   real \<times> opt_cells \<Rightarrow> bool"
where
  "record_of T C cells S st =
     ((st = (- fl (10 ^ 60), cells) \<and> (\<forall>q\<in>S. T q \<le> - fl (10 ^ 60))) \<or>
      (\<exists>p\<in>S. st = (T p, spec_rise (fst p), spec_drop (snd p), C p) \<and> - fl (10 ^ 60) < T p \<and>
         (\<forall>q\<in>S. T q \<le> T p \<and>
            (T q = T p \<longrightarrow> fst p < fst q \<or> (fst p = fst q \<and> snd p \<le> snd q)))))"

subsection \<open>For the permutation routines\<close>

text \<open>The triplets of intrabar moves, one per bar.\<close>

definition triplets :: "changes \<Rightarrow> (real \<times> real \<times> real) list" where
  "triplets c = zip (rel_high c) (zip (rel_low c) (rel_close c))"

text \<open>
  A state of the generator for examples: the table is zero, so the next draw is the
  carry, 362436, and the draws after it are 0.
\<close>

definition mwc256_zero :: mwc256 where
  "mwc256_zero = \<lparr>Q = replicate 256 0, carry = 362436, MWC256_initialized = True,
      MWC256_seed = 123456789, RAND32M_i = 255\<rparr>"

text \<open>
  \<open>window_of nc p\<close>: the price arrays hold the \<open>nc\<close> bars of the window;
  \<open>work_area_of nc c\<close>: the arrays of changes hold its \<open>nc - 1\<close> changes.
\<close>

definition window_of :: "int \<Rightarrow> prices \<Rightarrow> bool" where
  "window_of nc p =
     (nc \<le> int (length (p_open p)) \<and> nc \<le> int (length (p_high p)) \<and>
      nc \<le> int (length (p_low p)) \<and> nc \<le> int (length (p_close p)))"

definition work_area_of :: "int \<Rightarrow> changes \<Rightarrow> bool" where
  "work_area_of nc c =
     (nc - 1 \<le> int (length (rel_open c)) \<and> nc - 1 \<le> int (length (rel_high c)) \<and>
      nc - 1 \<le> int (length (rel_low c)) \<and> nc - 1 \<le> int (length (rel_close c)))"

text \<open>The changes at index \<open>m\<close> are those of bar \<open>m + 1\<close> of \<open>p\<close>.\<close>

definition derived_at :: "prices \<Rightarrow> changes \<Rightarrow> nat \<Rightarrow> bool" where
  "derived_at p c m =
     (rel_open c ! m = fl (p_open p ! (m + 1) - p_close p ! m) \<and>
      rel_high c ! m = fl (p_high p ! (m + 1) - p_open p ! (m + 1)) \<and>
      rel_low c ! m = fl (p_low p ! (m + 1) - p_open p ! (m + 1)) \<and>
      rel_close c ! m = fl (p_close p ! (m + 1) - p_open p ! (m + 1)))"

text \<open>Bar \<open>k\<close> of \<open>p\<close> is built from the close before it and the changes at index \<open>k - 1\<close>.\<close>

definition rebuilt_at :: "prices \<Rightarrow> changes \<Rightarrow> nat \<Rightarrow> bool" where
  "rebuilt_at p c k =
     (p_open p ! k = fl (p_close p ! (k - 1) + rel_open c ! (k - 1)) \<and>
      p_high p ! k = fl (p_open p ! k + rel_high c ! (k - 1)) \<and>
      p_low p ! k = fl (p_open p ! k + rel_low c ! (k - 1)) \<and>
      p_close p ! k = fl (p_open p ! k + rel_close c ! (k - 1)))"

text \<open>Bar \<open>k\<close> is the same in \<open>p'\<close> and \<open>p\<close>; the changes at \<open>m\<close> are the same in \<open>c'\<close> and \<open>c\<close>.\<close>

definition same_bar :: "prices \<Rightarrow> prices \<Rightarrow> nat \<Rightarrow> bool" where
  "same_bar p' p k =
     (p_open p' ! k = p_open p ! k \<and> p_high p' ! k = p_high p ! k \<and>
      p_low p' ! k = p_low p ! k \<and> p_close p' ! k = p_close p ! k)"

definition same_changes :: "changes \<Rightarrow> changes \<Rightarrow> nat \<Rightarrow> bool" where
  "same_changes c' c m =
     (rel_open c' ! m = rel_open c ! m \<and> rel_high c' ! m = rel_high c ! m \<and>
      rel_low c' ! m = rel_low c ! m \<and> rel_close c' ! m = rel_close c ! m)"

text \<open>
  Two windows for examples and a work area with the cells \<open>z\<close>. \<open>bars2\<close> has two bars:
  the first stays at the log price 0.03, the second opens there and falls to 0.01 (the
  prices are the \<^verbatim>\<open>double\<close>s nearest to these numbers). \<open>bars4\<close> has four bars with
  whole numbers for prices.
\<close>

definition bars2 :: prices where
  "bars2 = \<lparr>p_open = [fl 0.03, fl 0.03], p_high = [fl 0.03, fl 0.03],
             p_low = [fl 0.03, fl 0.01], p_close = [fl 0.03, fl 0.01]\<rparr>"

definition bars4 :: prices where
  "bars4 = \<lparr>p_open = [100, 102, 101, 105], p_high = [103, 104, 106, 107],
             p_low = [99, 100, 100, 102], p_close = [101, 103, 104, 103]\<rparr>"

definition work_area :: "real list \<Rightarrow> changes" where
  "work_area z = \<lparr>rel_open = z, rel_high = z, rel_low = z, rel_close = z\<rparr>"

text \<open>
  What the reader of the market file checks of a bar (lines 423--424): the low is not
  above the open or the close, the high not below them.
\<close>

definition bar_ok :: "prices \<Rightarrow> nat \<Rightarrow> bool" where
  "bar_ok p k =
     (\<not> (p_low p ! k > p_open p ! k \<or> p_low p ! k > p_close p ! k \<or>
         p_high p ! k < p_open p ! k \<or> p_high p ! k < p_close p ! k))"

text \<open>
  A triplet \<open>(rel_high, rel_low, rel_close)\<close> that puts the low below and the high above
  the open and the close of whatever open it is added to.
\<close>

definition triplet_ok :: "real \<times> real \<times> real \<Rightarrow> bool" where
  "triplet_ok t = (case t of (h, l, cl) \<Rightarrow> l \<le> 0 \<and> 0 \<le> h \<and> l \<le> cl \<and> cl \<le> h)"

subsection \<open>For the main routine\<close>

text \<open>
  \<open>ready nprices lookback v\<close>: the arrays of \<open>v\<close> are as long as the replications need
  them.
\<close>

definition ready :: "int \<Rightarrow> int \<Rightarrow> main_vars \<Rightarrow> bool" where
  "ready nprices lookback v =
     (window_of nprices (v_prices v) \<and> work_area_of (nprices - lookback) (v_changes v))"

text \<open>A series of 11 bars and values for the uninitialised variables, for examples.\<close>

definition bars11 :: prices where
  "bars11 =
     \<lparr>p_open = [100, 102, 101, 105, 104, 106, 103, 107, 108, 106, 109],
      p_high = [103, 104, 106, 107, 108, 109, 107, 110, 110, 109, 112],
      p_low = [99, 100, 100, 102, 101, 104, 102, 105, 105, 104, 107],
      p_close = [101, 103, 104, 103, 106, 105, 106, 108, 107, 108, 110]\<rparr>"

definition uninit0 :: uninit where
  "uninit0 = \<lparr>u_cells = (0, 0, 0), u_original = 0, u_original_trend_component = 0,
      u_original_nlong = 0, u_count = 0, u_mean_training_bias = 0\<rparr>"

section \<open>Properties of the arithmetic of \<^verbatim>\<open>double\<close>\<close>

subsection \<open>Rounding to the nearest integer\<close>

lemma rne_of_int [simp]: "rne (of_int n) = n"
  by (simp add: rne_def)

lemma rne_bounds: "\<lfloor>y\<rfloor> \<le> rne y" "rne y \<le> \<lfloor>y\<rfloor> + 1"
  by (simp_all add: rne_def Let_def)

lemma rne_mono: "x \<le> y \<Longrightarrow> rne x \<le> rne y"
proof -
  assume xy: "x \<le> y"
  then have fg: "\<lfloor>x\<rfloor> \<le> \<lfloor>y\<rfloor>" by (rule floor_mono)
  show ?thesis
  proof (cases "\<lfloor>x\<rfloor> < \<lfloor>y\<rfloor>")
    case True
    then show ?thesis using rne_bounds(2) [of x] rne_bounds(1) [of y] by linarith
  next
    case False
    then have "\<lfloor>x\<rfloor> = \<lfloor>y\<rfloor>" using fg by simp
    then show ?thesis using xy by (simp add: rne_def Let_def)
  qed
qed

lemma rne_minus: "rne (- x) = - rne x"
proof (cases "x = of_int \<lfloor>x\<rfloor>")
  case True
  then obtain n where "x = of_int n" ..
  then have "- x = of_int (- n)" by simp
  then show ?thesis using \<open>x = of_int n\<close> by (simp only: rne_of_int)
next
  case False
  define f where "f = \<lfloor>x\<rfloor>"
  have "of_int f < x" "x < of_int f + 1" using False unfolding f_def by linarith+
  then have "\<lfloor>- x\<rfloor> = - f - 1" by (intro floor_unique) simp_all
  then show ?thesis
    unfolding rne_def Let_def f_def [symmetric] by (simp add: f_def [symmetric])
qed

subsection \<open>The exponent\<close>

lemma ilog2_bounds:
  assumes "0 < x"
  shows "2 powi ilog2 x \<le> x" and "x < 2 powi (ilog2 x + 1)"
proof -
  have "2 powi ilog2 x \<le> x \<and> x < 2 powi (ilog2 x + 1)"
  proof (cases "1 \<le> x")
    case True
    define n where "n = \<lfloor>x\<rfloor>"
    have n: "1 \<le> n" "of_int n \<le> x" "x < of_int n + 1"
      using True unfolding n_def by linarith+
    then have pos: "0 < n" by simp
    have b: "2 ^ nat (bitlen n - 1) \<le> n" "n < 2 ^ nat (bitlen n)"
      using bitlen_bounds [OF pos] by simp_all
    have bl: "1 \<le> bitlen n" using n(1) by (simp add: bitlen_ge_iff_power)
    have e: "ilog2 x = bitlen n - 1" using True by (simp add: ilog2_def n_def)
    have "(2::real) ^ nat (bitlen n - 1) = real_of_int (2 ^ nat (bitlen n - 1))" by simp
    also have "\<dots> \<le> real_of_int n" using b(1) by (simp only: of_int_le_iff)
    also have "\<dots> \<le> x" by (rule n(2))
    finally have lo: "2 powi (bitlen n - 1) \<le> x"
      using bl by (simp add: power_int_nonneg_exp)
    have "n + 1 \<le> 2 ^ nat (bitlen n)" using b(2) by simp
    then have "real_of_int (n + 1) \<le> real_of_int (2 ^ nat (bitlen n))"
      by (simp only: of_int_le_iff)
    also have "\<dots> = 2 ^ nat (bitlen n)" by simp
    finally have "x < 2 ^ nat (bitlen n)" using n(3) by simp
    then have hi: "x < 2 powi (bitlen n)"
      using bl by (simp add: power_int_nonneg_exp)
    show ?thesis using lo hi by (simp add: e)
  next
    case False
    then have x1: "x < 1" by simp
    define z where "z = \<lceil>1 / x\<rceil> - 1"
    have inv: "1 < 1 / x" using assms x1 by simp
    have z: "1 \<le> z" "of_int z < 1 / x" "1 / x \<le> of_int z + 1"
      using inv unfolding z_def by linarith+
    then have pos: "0 < z" by simp
    have b: "2 ^ nat (bitlen z - 1) \<le> z" "z < 2 ^ nat (bitlen z)"
      using bitlen_bounds [OF pos] by simp_all
    have bl: "1 \<le> bitlen z" using z(1) by (simp add: bitlen_ge_iff_power)
    have e: "ilog2 x = - bitlen z" using False by (simp add: ilog2_def z_def)
    have "z + 1 \<le> 2 ^ nat (bitlen z)" using b(2) by simp
    then have "real_of_int (z + 1) \<le> real_of_int (2 ^ nat (bitlen z))"
      by (simp only: of_int_le_iff)
    also have "\<dots> = 2 ^ nat (bitlen z)" by simp
    finally have "1 / x \<le> 2 ^ nat (bitlen z)" using z(3) by simp
    then have "1 \<le> 2 ^ nat (bitlen z) * x" using assms by (simp add: field_simps)
    then have lo: "2 powi (- bitlen z) \<le> x"
      using bl by (simp add: power_int_minus power_int_nonneg_exp field_simps)
    have "(2::real) ^ nat (bitlen z - 1) = real_of_int (2 ^ nat (bitlen z - 1))" by simp
    also have "\<dots> \<le> real_of_int z" using b(1) by (simp only: of_int_le_iff)
    also have "\<dots> < 1 / x" by (rule z(2))
    finally have "2 ^ nat (bitlen z - 1) < 1 / x" .
    then have "x < 1 / 2 ^ nat (bitlen z - 1)" using assms by (simp add: field_simps)
    moreover have nn: "0 \<le> bitlen z - 1" using bl by simp
    have "(2::real) powi (- (bitlen z - 1)) = 1 / 2 ^ nat (bitlen z - 1)"
      by (simp only: power_int_minus_divide power_int_nonneg_exp [OF nn])
    moreover have "- (bitlen z - 1) = - bitlen z + 1" by simp
    ultimately have hi: "x < 2 powi (- bitlen z + 1)" by (simp only:)
    show ?thesis using lo hi by (simp add: e)
  qed
  then show "2 powi ilog2 x \<le> x" and "x < 2 powi (ilog2 x + 1)" by simp_all
qed

lemma ilog2_unique:
  assumes "0 < x" "2 powi e \<le> x" "x < 2 powi (e + 1)"
  shows "ilog2 x = e"
proof (rule ccontr)
  assume ne: "ilog2 x \<noteq> e"
  show False
  proof (cases "ilog2 x < e")
    case True
    then have "(2::real) powi (ilog2 x + 1) \<le> 2 powi e"
      by (intro power_int_increasing) simp_all
    then show False using ilog2_bounds(2) [OF assms(1)] assms(2) by linarith
  next
    case False
    then have "e + 1 \<le> ilog2 x" using ne by simp
    then have "(2::real) powi (e + 1) \<le> 2 powi ilog2 x"
      by (intro power_int_increasing) simp_all
    then show False using ilog2_bounds(1) [OF assms(1)] assms(3) by linarith
  qed
qed

lemma ilog2_mono:
  assumes "0 < x" "x \<le> y"
  shows "ilog2 x \<le> ilog2 y"
proof (rule ccontr)
  assume "\<not> ilog2 x \<le> ilog2 y"
  then have "ilog2 y + 1 \<le> ilog2 x" by simp
  then have "(2::real) powi (ilog2 y + 1) \<le> 2 powi ilog2 x"
    by (intro power_int_increasing) simp_all
  moreover have "0 < y" using assms by simp
  ultimately show False
    using ilog2_bounds(1) [OF assms(1)] ilog2_bounds(2) [of y] assms(2) by linarith
qed

subsection \<open>Rounding to the nearest \<^verbatim>\<open>double\<close>\<close>

lemma fl_0 [simp]: "fl 0 = 0"
  by (simp add: fl_def)

lemma fl_minus: "fl (- x) = - fl x"
  by (simp add: fl_def Let_def rne_minus)

text \<open>The significand of a rounded positive number lies between \<open>2^52\<close> and \<open>2^53\<close>.\<close>

lemma fl_pos_form:
  assumes "0 < x"
  shows "\<exists>m. fl x = of_int m * 2 powi (ilog2 x - 52) \<and> 2 ^ 52 \<le> m \<and> m \<le> 2 ^ 53 \<and>
     m = rne (x / 2 powi (ilog2 x - 52))"
proof -
  define e where "e = ilog2 x"
  define y where "y = x / 2 powi (e - 52)"
  have p: "(0::real) < 2 powi (e - 52)" by simp
  have "2 powi e / 2 powi (e - 52) \<le> y"
    unfolding y_def e_def using ilog2_bounds(1) [OF assms] by (intro divide_right_mono) simp_all
  moreover have "y < 2 powi (e + 1) / 2 powi (e - 52)"
    unfolding y_def e_def using ilog2_bounds(2) [OF assms]
    by (intro divide_strict_right_mono) simp_all
  moreover have "(2::real) powi e / 2 powi (e - 52) = 2 ^ 52"
    "(2::real) powi (e + 1) / 2 powi (e - 52) = 2 ^ 53"
    by (simp_all flip: power_int_diff)
  ultimately have y: "of_int (2 ^ 52) \<le> y" "y \<le> of_int (2 ^ 53)" by simp_all
  have "rne (of_int (2 ^ 52)) \<le> rne y" "rne y \<le> rne (of_int (2 ^ 53))"
    using y by (simp_all only: rne_mono)
  then have "2 ^ 52 \<le> rne y" "rne y \<le> 2 ^ 53" by (simp_all only: rne_of_int)
  moreover have "fl x = of_int (rne y) * 2 powi (e - 52)"
    using assms by (simp add: fl_def Let_def y_def e_def)
  ultimately show ?thesis unfolding y_def e_def by blast
qed

lemma fl_pos_bounds:
  assumes "0 < x"
  shows "2 powi ilog2 x \<le> fl x" and "fl x \<le> 2 powi (ilog2 x + 1)"
proof -
  obtain m where m: "fl x = of_int m * 2 powi (ilog2 x - 52)" "2 ^ 52 \<le> m" "m \<le> 2 ^ 53"
    using fl_pos_form [OF assms] by blast
  have "real_of_int (2 ^ 52) \<le> real_of_int m" "real_of_int m \<le> real_of_int (2 ^ 53)"
    using m(2,3) by linarith+
  then have "2 ^ 52 * 2 powi (ilog2 x - 52) \<le> fl x" "fl x \<le> 2 ^ 53 * 2 powi (ilog2 x - 52)"
    unfolding m(1) by (simp_all add: mult_right_mono)
  moreover have "(2::real) powi (52 + (ilog2 x - 52)) = 2 powi 52 * 2 powi (ilog2 x - 52)"
    "(2::real) powi (53 + (ilog2 x - 52)) = 2 powi 53 * 2 powi (ilog2 x - 52)"
    by (rule power_int_add, simp)+
  then have "(2::real) ^ 52 * 2 powi (ilog2 x - 52) = 2 powi ilog2 x"
    "(2::real) ^ 53 * 2 powi (ilog2 x - 52) = 2 powi (ilog2 x + 1)"
    by (simp_all add: add.commute)
  ultimately show "2 powi ilog2 x \<le> fl x" and "fl x \<le> 2 powi (ilog2 x + 1)" by simp_all
qed

lemma fl_pos: "0 < x \<Longrightarrow> 0 < fl x"
  using fl_pos_bounds(1) [of x] zero_less_power_int [of "2::real" "ilog2 x"] by linarith

lemma fl_mono_pos:
  assumes "0 < x" "x \<le> y"
  shows "fl x \<le> fl y"
proof -
  have y: "0 < y" using assms by simp
  have le: "ilog2 x \<le> ilog2 y" using assms by (rule ilog2_mono)
  show ?thesis
  proof (cases "ilog2 x = ilog2 y")
    case True
    have "x / 2 powi (ilog2 y - 52) \<le> y / 2 powi (ilog2 y - 52)"
      using assms(2) by (intro divide_right_mono) simp_all
    then have "rne (x / 2 powi (ilog2 y - 52)) \<le> rne (y / 2 powi (ilog2 y - 52))"
      by (rule rne_mono)
    then have "real_of_int (rne (x / 2 powi (ilog2 y - 52))) \<le>
        real_of_int (rne (y / 2 powi (ilog2 y - 52)))" by linarith
    then show ?thesis
      using assms(1) y True by (simp add: fl_def Let_def mult_right_mono)
  next
    case False
    then have "ilog2 x + 1 \<le> ilog2 y" using le by simp
    then have "(2::real) powi (ilog2 x + 1) \<le> 2 powi ilog2 y"
      by (intro power_int_increasing) simp_all
    then show ?thesis
      using fl_pos_bounds(2) [OF assms(1)] fl_pos_bounds(1) [OF y] by linarith
  qed
qed

text \<open>Rounding is monotone.\<close>

lemma fl_mono:
  assumes "x \<le> y"
  shows "fl x \<le> fl y"
proof -
  consider "0 < x" | "x = 0" | "x < 0" "0 < y" | "x < 0" "y = 0" | "x < 0" "y < 0"
    by linarith
  then show ?thesis
  proof cases
    case 1
    then show ?thesis using assms by (rule fl_mono_pos)
  next
    case 2
    then show ?thesis using assms fl_pos [of y] by (cases "y = 0") simp_all
  next
    case 3
    then show ?thesis using fl_pos [of "- x"] fl_pos [of y] by (simp add: fl_minus)
  next
    case 4
    then show ?thesis using fl_pos [of "- x"] by (simp add: fl_minus)
  next
    case 5
    then have "fl (- y) \<le> fl (- x)" using assms by (intro fl_mono_pos) simp_all
    then show ?thesis by (simp add: fl_minus)
  qed
qed

lemma fl_nonneg: "0 \<le> x \<Longrightarrow> 0 \<le> fl x"
  using fl_mono [of 0 x] by simp

lemma fl_nonpos: "x \<le> 0 \<Longrightarrow> fl x \<le> 0"
  using fl_mono [of x 0] by simp

text \<open>A number with a significand of at most 53 bits is a \<^verbatim>\<open>double\<close>: rounding keeps it.\<close>

lemma fl_exact_pos:
  assumes "0 < n" "n < 2 ^ 53"
  shows "fl (of_int n * 2 powi k) = of_int n * 2 powi k"
proof -
  define x where "x = real_of_int n * 2 powi k"
  have x: "0 < x" using assms(1) by (simp add: x_def)
  define e where "e = ilog2 x"
  have "2 powi e \<le> real_of_int n * 2 powi k"
    using ilog2_bounds(1) [OF x] by (simp add: e_def x_def)
  then have "2 powi e / 2 powi k \<le> real_of_int n" by (simp add: field_simps)
  then have "2 powi (e - k) \<le> real_of_int n" by (simp add: power_int_diff)
  moreover have "real_of_int n < 2 powi 53" using assms(2) by (simp add: of_int_less_iff [symmetric] del: of_int_less_iff)
  ultimately have "(2::real) powi (e - k) < 2 powi 53" by linarith
  then have "e - k < 53" by (rule power_int_le_imp_less_exp [rotated]) simp_all
  then have j: "0 \<le> k - (e - 52)" by simp
  have "x / 2 powi (e - 52) = real_of_int n * 2 powi (k - (e - 52))"
    by (simp add: x_def power_int_diff)
  also have "\<dots> = real_of_int (n * 2 ^ nat (k - (e - 52)))"
    using j by (simp add: power_int_nonneg_exp)
  finally have "rne (x / 2 powi (e - 52)) = n * 2 ^ nat (k - (e - 52))"
    by (simp only: rne_of_int)
  then have "fl x = real_of_int (n * 2 ^ nat (k - (e - 52))) * 2 powi (e - 52)"
    using x by (simp add: fl_def Let_def e_def)
  also have "\<dots> = real_of_int n * (2 powi (k - (e - 52)) * 2 powi (e - 52))"
    using j by (simp add: power_int_nonneg_exp)
  also have "2 powi (k - (e - 52)) * 2 powi (e - 52) = (2::real) powi k"
    by (simp flip: power_int_add)
  finally show ?thesis by (simp add: x_def)
qed

lemma fl_exact:
  assumes "\<bar>n\<bar> < 2 ^ 53"
  shows "fl (of_int n * 2 powi k) = of_int n * 2 powi k"
proof -
  consider "0 < n" | "n = 0" | "n < 0" by linarith
  then show ?thesis
  proof cases
    case 1
    then show ?thesis using assms by (intro fl_exact_pos) simp_all
  next
    case 2
    then show ?thesis by simp
  next
    case 3
    then have "fl (of_int (- n) * 2 powi k) = of_int (- n) * 2 powi k"
      using assms by (intro fl_exact_pos) simp_all
    then have "fl (- (of_int n * 2 powi k)) = - (of_int n * 2 powi k)" by simp
    then show ?thesis by (simp only: fl_minus neg_equal_iff_equal)
  qed
qed

text \<open>What rounding returns is a \<^verbatim>\<open>double\<close>.\<close>

lemma fl_idem_pos:
  assumes "0 < x"
  shows "fl (fl x) = fl x"
proof -
  obtain m where m: "fl x = of_int m * 2 powi (ilog2 x - 52)" "2 ^ 52 \<le> m" "m \<le> 2 ^ 53"
    using fl_pos_form [OF assms] by blast
  show ?thesis
  proof (cases "m = 2 ^ 53")
    case True
    have "of_int m * 2 powi (ilog2 x - 52) = real_of_int (2 ^ 52) * 2 powi (ilog2 x - 52 + 1)"
      unfolding True using power_int_add_1' [of "2::real" "ilog2 x - 52"] by simp
    moreover have "fl (real_of_int (2 ^ 52) * 2 powi (ilog2 x - 52 + 1)) =
        real_of_int (2 ^ 52) * 2 powi (ilog2 x - 52 + 1)"
      by (rule fl_exact) simp
    ultimately show ?thesis using m(1) by simp
  next
    case False
    then have "\<bar>m\<bar> < 2 ^ 53" using m(2,3) by simp
    then show ?thesis unfolding m(1) by (rule fl_exact)
  qed
qed

lemma fl_idem [simp]: "fl (fl x) = fl x"
proof -
  consider "0 < x" | "x = 0" | "x < 0" by linarith
  then show ?thesis
  proof cases
    case 1
    then show ?thesis by (rule fl_idem_pos)
  next
    case 2
    then show ?thesis by simp
  next
    case 3
    then have "fl (fl (- x)) = fl (- x)" by (intro fl_idem_pos) simp
    then show ?thesis by (simp add: fl_minus)
  qed
qed

lemma fl_of_int: "\<bar>n\<bar> < 2 ^ 53 \<Longrightarrow> fl (of_int n) = of_int n"
  using fl_exact [of n 0] by simp

lemma fl_numeral [simp]: "(numeral n :: int) < 2 ^ 53 \<Longrightarrow> fl (numeral n) = numeral n"
  using fl_of_int [of "numeral n"] by simp

lemma fl_neg_numeral [simp]:
  "(numeral n :: int) < 2 ^ 53 \<Longrightarrow> fl (- numeral n) = - numeral n"
  using fl_of_int [of "- numeral n"] by simp

lemma fl_1 [simp]: "fl 1 = 1"
  using fl_of_int [of 1] by simp

lemma fl_neg_1 [simp]: "fl (- 1) = - 1"
  using fl_of_int [of "- 1"] by simp

lemma half_double: "fl (1 / 2) = 1 / 2"
  using fl_exact [of 1 "- 1"] by simp

text \<open>A bound that is a \<^verbatim>\<open>double\<close> survives rounding.\<close>

lemma fl_abs_le:
  assumes "\<bar>x\<bar> \<le> of_int m" and "\<bar>m\<bar> < 2 ^ 53"
  shows "\<bar>fl x\<bar> \<le> of_int m"
proof -
  have "fl (of_int m) = of_int m" "fl (of_int (- m)) = of_int (- m)"
    using assms(2) by (simp_all only: fl_of_int abs_minus_cancel)
  moreover have "fl x \<le> fl (of_int m)" "fl (of_int (- m)) \<le> fl x"
    using assms(1) by (intro fl_mono, simp)+
  ultimately show ?thesis by simp
qed

lemma rne_error: "\<bar>real_of_int (rne y) - y\<bar> \<le> 1 / 2"
  unfolding rne_def Let_def by (simp add: abs_le_iff)

text \<open>The relative error of rounding is at most \<open>2^-53\<close>.\<close>

lemma fl_error:
  assumes "0 < x"
  shows "\<bar>fl x - x\<bar> \<le> x / 2 ^ 53"
proof -
  define k where "k = ilog2 x - 52"
  define y where "y = x / 2 powi k"
  have p: "(0::real) < 2 powi k" by simp
  have x: "x = y * 2 powi k" by (simp add: y_def)
  have "2 powi ilog2 x / 2 powi k \<le> y"
    unfolding y_def using ilog2_bounds(1) [OF assms] by (intro divide_right_mono) simp_all
  moreover have "(2::real) powi ilog2 x / 2 powi k = 2 ^ 52"
    unfolding k_def by (simp flip: power_int_diff)
  ultimately have y: "2 ^ 52 \<le> y" by simp
  have "fl x = of_int (rne y) * 2 powi k"
    using assms by (simp add: fl_def Let_def y_def k_def)
  then have "fl x - x = (of_int (rne y) - y) * 2 powi k" by (simp add: x algebra_simps)
  then have "\<bar>fl x - x\<bar> = \<bar>of_int (rne y) - y\<bar> * 2 powi k" by (simp add: abs_mult)
  also have "\<dots> \<le> 1 / 2 * 2 powi k"
    using rne_error [of y] by (intro mult_right_mono) simp_all
  also have "\<dots> \<le> y / 2 ^ 53 * 2 powi k"
    using y by (intro mult_right_mono) simp_all
  also have "\<dots> = x / 2 ^ 53" by (simp add: x)
  finally show ?thesis .
qed

section \<open>Properties of the random generator\<close>

declare fill_Q.simps [simp del]

lemma fill_Q_length: "length (fill_Q k j q) = length q"
  by (induction k j q rule: fill_Q.induct) (subst fill_Q.simps, simp add: Let_def)

text \<open>The initialisation loop overwrites the whole table: what the table held before is lost.\<close>

lemma fill_Q_overwrites:
  "length q = length q' \<Longrightarrow> length q \<le> 256 \<Longrightarrow> take k q = take k q' \<Longrightarrow>
   fill_Q k j q = fill_Q k j q'"
proof (induction k j q arbitrary: q' rule: fill_Q.induct)
  case (1 k j q)
  show ?case
  proof (cases "k < 256")
    case True
    let ?j = "69069 * j + 12345"
    have "take (k + 1) (q[k := ?j]) = take (k + 1) (q'[k := ?j])"
    proof (cases "k < length q")
      case True
      then show ?thesis using "1.prems" by (simp add: take_Suc_conv_app_nth)
    next
      case False
      then show ?thesis using "1.prems" by simp
    qed
    then have "fill_Q (k + 1) ?j (q[k := ?j]) = fill_Q (k + 1) ?j (q'[k := ?j])"
      using "1.IH" [OF True refl, of "q'[k := ?j]"] "1.prems" by simp
    then show ?thesis
      using True by (simp add: fill_Q.simps [of k j q] fill_Q.simps [of k j q'] Let_def)
  next
    case False
    with "1.prems"(1,2) have "length q \<le> k" "length q' \<le> k" by linarith+
    then have "take k q = q" "take k q' = q'" by (simp_all only: take_all)
    with "1.prems"(3) have "q = q'" by (simp only:)
    then show ?thesis by (simp only:)
  qed
qed

lemma RAND32M_after_seed:
  assumes "carry g1 = carry g2" and "RAND32M_i g1 = RAND32M_i g2"
    and "length (Q g1) = 256" and "length (Q g2) = 256"
  shows "RAND32M (RAND32M_seed s g1) = RAND32M (RAND32M_seed s g2)"
proof -
  have "fill_Q 0 s (Q g1) = fill_Q 0 s (Q g2)"
    using assms by (intro fill_Q_overwrites) simp_all
  then show ?thesis
    using assms by (simp add: RAND32M_def RAND32M_seed_def Let_def)
qed

text \<open>
  Two generators with the same carry word and the same table index, both seeded with
  \<open>s\<close>, draw the same sequence.
\<close>

lemma draws_after_seed:
  assumes "carry g1 = carry g2" and "RAND32M_i g1 = RAND32M_i g2"
    and "length (Q g1) = 256" and "length (Q g2) = 256"
  shows "draws n (RAND32M_seed s g1) = draws n (RAND32M_seed s g2)"
  using RAND32M_after_seed [OF assms, of s] by (cases n) simp_all

text \<open>
  The factor \<^verbatim>\<open>mult\<close> is \<open>2^-32 + 2^-64\<close>, a little below \<open>1 / (2^32 - 1)\<close>. Its
  product with \<open>2^32 - 1\<close> is \<open>1 - 2^-64\<close>, which rounds to 1; its product with
  \<open>2^32 - 2\<close> rounds to \<open>1 - 2^-32\<close>.
\<close>

lemma mult_double: "fl (1 / 4294967295) = 4294967297 / 2 ^ 64"
  by (simp add: fl_def ilog2_def rne_def Let_def compute_bitlen)

lemma mult_times_max: "fl (4294967297 / 2 ^ 64 * 4294967295) = 1"
  by (simp add: fl_def ilog2_def rne_def Let_def compute_bitlen)

lemma mult_times_below_max: "fl (4294967297 / 2 ^ 64 * 4294967294) = 4294967295 / 4294967296"
  by (simp add: fl_def ilog2_def rne_def Let_def compute_bitlen)

lemma unifrand_of_as_product:
  "unifrand_of x = fl (4294967297 / 2 ^ 64 * real_of_int (uint x))"
  unfolding unifrand_of_def Let_def by (simp only: mult_double)

lemma unifrand_of_max: "unifrand_of 0xFFFFFFFF = 1"
  unfolding unifrand_of_as_product using mult_times_max by simp

lemma unifrand_of_bounds: "0 \<le> unifrand_of x \<and> unifrand_of x \<le> 1"
proof -
  define r where "r = real_of_int (uint x)"
  have "uint x < 2 ^ 32" using uint_bounded [of x] by simp
  then have "uint x \<le> 4294967295" by simp
  then have "r \<le> 4294967295" unfolding r_def by linarith
  then have "4294967297 / 2 ^ 64 * r \<le> 1" by simp
  then have "fl (4294967297 / 2 ^ 64 * r) \<le> fl 1" by (rule fl_mono)
  moreover have "0 \<le> r" unfolding r_def by (simp only: of_int_0_le_iff uint_nonnegative)
  then have "0 \<le> fl (4294967297 / 2 ^ 64 * r)" by (intro fl_nonneg) simp
  ultimately show ?thesis
    unfolding unifrand_of_as_product r_def [symmetric] by simp
qed

lemma unifrand_of_eq_1: "unifrand_of x = 1 \<longleftrightarrow> x = 0xFFFFFFFF"
proof
  assume "x = 0xFFFFFFFF"
  then show "unifrand_of x = 1" by (simp only: unifrand_of_max)
next
  assume one: "unifrand_of x = 1"
  show "x = 0xFFFFFFFF"
  proof (rule ccontr)
    assume ne: "x \<noteq> 0xFFFFFFFF"
    define r where "r = real_of_int (uint x)"
    have "uint x < 2 ^ 32" using uint_bounded [of x] by simp
    moreover have "uint x \<noteq> uint (0xFFFFFFFF :: 32 word)"
      using ne by (simp only: word_uint_eq_iff not_False_eq_True)
    ultimately have "uint x \<le> 4294967294" by simp
    then have "r \<le> 4294967294" unfolding r_def by linarith
    then have "4294967297 / 2 ^ 64 * r \<le> 4294967297 / 2 ^ 64 * 4294967294" by simp
    then have "fl (4294967297 / 2 ^ 64 * r) \<le> fl (4294967297 / 2 ^ 64 * 4294967294)"
      by (rule fl_mono)
    then have "unifrand_of x < 1"
      unfolding unifrand_of_as_product r_def [symmetric] mult_times_below_max by simp
    then show False using one by simp
  qed
qed

text \<open>
  Claim C5, at a failing input. A generator seeded with 123456789 before its first draw
  draws 3894166764 first. A generator that has drawn once and is then seeded with
  123456789 draws 1524314850 first: \<^verbatim>\<open>RAND32M_seed\<close> makes the next draw refill the
  table, but the carry word and the table index stay where the earlier draw left them.
\<close>

theorem RAND32M_reseed_diverges:
  "draws 1 (RAND32M_seed 123456789 mwc256_start) = [3894166764] \<and>
   draws 1 (RAND32M_seed 123456789 (snd (RAND32M mwc256_start))) = [1524314850]"
  by code_simp

text \<open>
  Claim C6 as stated fails: when \<^verbatim>\<open>RAND32M\<close> returns \<open>2^32 - 1\<close>, the product
  \<^verbatim>\<open>mult * RAND32M()\<close> is rounded to 1, not less than 1.
\<close>

theorem unifrand_of_max_is_1: "\<not> unifrand_of 0xFFFFFFFF < 1"
  by (simp add: unifrand_of_max)

text \<open>
  Claim C6, amended: every value returned by \<^verbatim>\<open>unifrand\<close> lies in the closed interval
  from 0 to 1, and it is 1 exactly when the word drawn is \<open>2^32 - 1\<close> (so it is less than
  1 for every other word).
\<close>

theorem unifrand_closed_unit_interval:
  "0 \<le> fst (unifrand g) \<and> fst (unifrand g) \<le> 1 \<and>
   (fst (unifrand g) = 1 \<longleftrightarrow> fst (RAND32M g) = 0xFFFFFFFF)"
  using unifrand_of_bounds [of "fst (RAND32M g)"] unifrand_of_eq_1 [of "fst (RAND32M g)"]
  by (simp add: unifrand_def split_beta)

text \<open>
  A state of the generator in which the next call of \<^verbatim>\<open>unifrand\<close> returns 1: the table
  word times 809430660 plus the carry is \<open>2^32 - 1\<close> modulo \<open>2^32\<close>.
\<close>

lemma unifrand_returns_1:
  "fst (unifrand \<lparr>Q = replicate 256 335484831, carry = 3, MWC256_initialized = True,
      MWC256_seed = 123456789, RAND32M_i = 255\<rparr>) = 1"
  by (simp add: unifrand_def RAND32M_def unifrand_of_max Let_def)

section \<open>Properties of the optimiser\<close>

declare trial_loop.simps [simp del] idrop_loop.simps [simp del] irise_loop.simps [simp del]

lemma rd_in: "0 \<le> i \<Longrightarrow> i < int (length a) \<Longrightarrow> rd a i = Inr (a ! nat i)"
  by (simp add: rd_def)

lemma wr_in: "0 \<le> i \<Longrightarrow> i < int (length a) \<Longrightarrow> wr a i v = Inr (a[nat i := v])"
  by (simp add: wr_def)

lemma bind_err_Inr [simp]: "bind_err (Inr x) f = f x"
  by (simp add: bind_err_def)

lemma bind_err_Inl [simp]: "bind_err (Inl e) f = Inl e"
  by (simp add: bind_err_def)

subsection \<open>One trial\<close>

lemma trial_case_in:
  assumes "1 \<le> lookback" "lookback \<le> i" "i < ncases - 2"
    and "ncases \<le> int (length open')" "ncases \<le> int (length close)"
  shows "trial_case lookback open' close rt dt i acc =
     Inr (fl (fst acc + spec_return_at lookback open' close rt dt i),
          snd acc + (if spec_long_signal lookback close rt dt i then 1 else 0))"
proof -
  have "rd close i = Inr (close ! nat i)"
    "rd close (i - lookback) = Inr (close ! nat (i - lookback))"
    "rd close (i - 1) = Inr (close ! nat (i - 1))"
    "rd open' (i + 2) = Inr (open' ! nat (i + 2))"
    "rd open' (i + 1) = Inr (open' ! nat (i + 1))"
    using assms by (simp_all add: rd_in)
  then show ?thesis
    by (simp add: trial_case_def spec_return_at_def spec_long_signal_def Let_def)
qed

lemma int_ivl_first: "i \<le> n \<Longrightarrow> {i..n::int} = insert i {i + 1..n}"
  by auto

lemma trial_loop_sums:
  assumes "1 \<le> lookback" "lookback \<le> i"
    and "ncases \<le> int (length open')" "ncases \<le> int (length close)"
  shows "trial_loop i ncases lookback open' close rt dt acc =
     Inr (foldl (\<lambda>s x. fl (s + x)) (fst acc)
            (map (spec_return_at lookback open' close rt dt) [i..ncases - 3]),
          snd acc + (\<Sum>k = i..ncases - 3.
                       if spec_long_signal lookback close rt dt k then 1 else 0))"
  using assms
proof (induction i ncases lookback open' close rt dt acc rule: trial_loop.induct)
  case (1 i ncases lookback open' close rt dt acc)
  show ?case
  proof (cases "i < ncases - 2")
    case True
    let ?acc = "(fl (fst acc + spec_return_at lookback open' close rt dt i),
          snd acc + (if spec_long_signal lookback close rt dt i then 1 else 0))"
    have tc: "trial_case lookback open' close rt dt i acc = Inr ?acc"
      using "1.prems" True by (simp add: trial_case_in)
    have ivl: "{i..ncases - 3} = insert i {i + 1..ncases - 3}"
      using True by (intro int_ivl_first) simp
    have upto: "[i..ncases - 3] = i # [i + 1..ncases - 3]"
      using True by (simp add: upto_rec1)
    have "trial_loop (i + 1) ncases lookback open' close rt dt ?acc =
      Inr (foldl (\<lambda>s x. fl (s + x)) (fst ?acc)
            (map (spec_return_at lookback open' close rt dt) [i + 1..ncases - 3]),
          snd ?acc + (\<Sum>k = i + 1..ncases - 3.
                       if spec_long_signal lookback close rt dt k then 1 else 0))"
      using "1.IH" [OF True tc] "1.prems" by simp
    then show ?thesis
      using True tc
      by (simp add: trial_loop.simps [of i] ivl upto add.assoc del: fst_conv snd_conv) simp
  next
    case False
    then have "{i..ncases - 3} = {}" "[i..ncases - 3] = []" by simp_all
    then show ?thesis using False by (simp add: trial_loop.simps [of i])
  qed
qed

lemma count_as_sum:
  "(\<Sum>k = i..n. if P k then 1 else 0) = int (card {k \<in> {i..n::int}. P k})"
proof -
  have "int (card {k \<in> {i..n}. P k}) = (\<Sum>k \<in> {k \<in> {i..n}. P k}. 1)" by simp
  also have "\<dots> = (\<Sum>k = i..n. if P k then 1 else 0)"
    by (rule sum.inter_filter) simp
  finally show ?thesis by simp
qed

text \<open>One trial: the loop over the cases returns the specified return and count.\<close>

lemma trial_loop_spec:
  assumes "1 \<le> lookback"
    and "ncases \<le> int (length open')" "ncases \<le> int (length close)"
  shows "trial_loop lookback ncases lookback open' close rt dt (0, 0) =
     Inr (spec_cumulative_return ncases lookback open' close rt dt,
          spec_long_count ncases lookback close rt dt)"
  using trial_loop_sums [OF assms(1) order_refl assms(2,3), of rt dt "(0, 0)"]
  by (simp add: spec_cumulative_return_def fsum_def spec_long_count_def count_as_sum)

subsection \<open>The grid search\<close>

lemma record_of_step:
  assumes "record_of T C cells S st"
    and later: "\<forall>q\<in>S. fst q < fst p \<or> (fst q = fst p \<and> snd q < snd p)"
  shows "record_of T C cells (insert p S)
     (if T p > fst st then (T p, spec_rise (fst p), spec_drop (snd p), C p) else st)"
  using assms(1) unfolding record_of_def
proof (elim disjE conjE bexE)
  assume st: "st = (- fl (10 ^ 60), cells)" and low: "\<forall>q\<in>S. T q \<le> - fl (10 ^ 60)"
  show "((if T p > fst st then (T p, spec_rise (fst p), spec_drop (snd p), C p) else st) =
         (- fl (10 ^ 60), cells) \<and> (\<forall>q\<in>insert p S. T q \<le> - fl (10 ^ 60))) \<or>
        (\<exists>p'\<in>insert p S.
           (if T p > fst st then (T p, spec_rise (fst p), spec_drop (snd p), C p) else st) =
             (T p', spec_rise (fst p'), spec_drop (snd p'), C p') \<and> - fl (10 ^ 60) < T p' \<and>
           (\<forall>q\<in>insert p S. T q \<le> T p' \<and>
              (T q = T p' \<longrightarrow> fst p' < fst q \<or> (fst p' = fst q \<and> snd p' \<le> snd q))))"
  proof (cases "T p > - fl (10 ^ 60)")
    case True
    have "\<forall>q\<in>insert p S. T q \<le> T p \<and>
              (T q = T p \<longrightarrow> fst p < fst q \<or> (fst p = fst q \<and> snd p \<le> snd q))"
      using low True by force
    then show ?thesis using True st by (intro disjI2 bexI [of _ p]) simp_all
  next
    case False
    then show ?thesis using st low by (intro disjI1) simp
  qed
next
  fix b
  assume b: "b \<in> S" and st: "st = (T b, spec_rise (fst b), spec_drop (snd b), C b)"
    and big: "- fl (10 ^ 60) < T b"
    and best: "\<forall>q\<in>S. T q \<le> T b \<and>
            (T q = T b \<longrightarrow> fst b < fst q \<or> (fst b = fst q \<and> snd b \<le> snd q))"
  show "((if T p > fst st then (T p, spec_rise (fst p), spec_drop (snd p), C p) else st) =
         (- fl (10 ^ 60), cells) \<and> (\<forall>q\<in>insert p S. T q \<le> - fl (10 ^ 60))) \<or>
        (\<exists>p'\<in>insert p S.
           (if T p > fst st then (T p, spec_rise (fst p), spec_drop (snd p), C p) else st) =
             (T p', spec_rise (fst p'), spec_drop (snd p'), C p') \<and> - fl (10 ^ 60) < T p' \<and>
           (\<forall>q\<in>insert p S. T q \<le> T p' \<and>
              (T q = T p' \<longrightarrow> fst p' < fst q \<or> (fst p' = fst q \<and> snd p' \<le> snd q))))"
  proof (cases "T p > T b")
    case True
    have "\<forall>q\<in>insert p S. T q \<le> T p \<and>
              (T q = T p \<longrightarrow> fst p < fst q \<or> (fst p = fst q \<and> snd p \<le> snd q))"
      using best True by force
    then show ?thesis using True st big by (intro disjI2 bexI [of _ p]) simp_all
  next
    case False
    have "fst b < fst p \<or> (fst b = fst p \<and> snd b < snd p)" using later b by blast
    then have "\<forall>q\<in>insert p S. T q \<le> T b \<and>
              (T q = T b \<longrightarrow> fst b < fst q \<or> (fst b = fst q \<and> snd b \<le> snd q))"
      using best False by force
    then show ?thesis using False st big b by (intro disjI2 bexI [of _ b]) simp_all
  qed
qed

lemma scanned_next_drop:
  "1 \<le> r \<Longrightarrow> 1 \<le> d \<Longrightarrow> d \<le> 50 \<Longrightarrow> scanned r (d + 1) = insert (r, d) (scanned r d)"
  unfolding scanned_def by (auto simp: prod_eq_iff)

lemma scanned_next_rise: "scanned r 51 = scanned (r + 1) 1"
  unfolding scanned_def by auto

lemma scanned_later:
  "\<forall>q\<in>scanned r d. fst q < fst (r, d) \<or> (fst q = fst (r, d) \<and> snd q < snd (r, d))"
  unfolding scanned_def by simp

lemma scanned_first: "scanned 1 1 = {}"
  unfolding scanned_def by auto

lemma scanned_last: "scanned 51 1 = {1..50} \<times> {1..50}"
  unfolding scanned_def by (auto simp: prod_eq_iff)

lemma idrop_loop_record:
  assumes trials: "\<And>d. 1 \<le> d \<Longrightarrow> d \<le> 50 \<Longrightarrow>
      trial_loop lookback ncases lookback open' close (spec_rise r) (spec_drop d) (0, 0) =
        Inr (T (r, d), C (r, d))"
    and r: "1 \<le> r"
  shows "1 \<le> d \<Longrightarrow> d \<le> 51 \<Longrightarrow> record_of T C cells (scanned r d) st \<Longrightarrow>
     \<exists>st'. idrop_loop d r ncases lookback open' close st = Inr st' \<and>
           record_of T C cells (scanned r 51) st'"
proof (induction "nat (51 - d)" arbitrary: d st)
  case 0
  then have "d = 51" by simp
  then show ?case using "0.prems" by (simp add: idrop_loop.simps [of 51])
next
  case (Suc n)
  then have d: "1 \<le> d" "d \<le> 50" by simp_all
  let ?st = "if T (r, d) > fst st then (T (r, d), spec_rise r, spec_drop d, C (r, d)) else st"
  have "record_of T C cells (insert (r, d) (scanned r d)) ?st"
    using record_of_step [OF Suc.prems(3) scanned_later] by (simp only: fst_conv snd_conv)
  then have "record_of T C cells (scanned r (d + 1)) ?st"
    using r d by (simp add: scanned_next_drop)
  moreover have "n = nat (51 - (d + 1))" using Suc.hyps(2) by simp
  ultimately have "\<exists>st'. idrop_loop (d + 1) r ncases lookback open' close ?st = Inr st' \<and>
      record_of T C cells (scanned r 51) st'"
    using d by (intro Suc.hyps(1)) simp_all
  moreover have "idrop_loop d r ncases lookback open' close st =
      idrop_loop (d + 1) r ncases lookback open' close ?st"
    unfolding idrop_loop.simps [of d] spec_rise_def [symmetric] spec_drop_def [symmetric]
    using d trials [OF d] by (simp add: Let_def)
  ultimately show ?case by simp
qed

lemma irise_loop_record:
  assumes trials: "\<And>r d. 1 \<le> r \<Longrightarrow> r \<le> 50 \<Longrightarrow> 1 \<le> d \<Longrightarrow> d \<le> 50 \<Longrightarrow>
      trial_loop lookback ncases lookback open' close (spec_rise r) (spec_drop d) (0, 0) =
        Inr (T (r, d), C (r, d))"
  shows "1 \<le> r \<Longrightarrow> r \<le> 51 \<Longrightarrow> record_of T C cells (scanned r 1) st \<Longrightarrow>
     \<exists>st'. irise_loop r ncases lookback open' close st = Inr st' \<and>
           record_of T C cells (scanned 51 1) st'"
proof (induction "nat (51 - r)" arbitrary: r st)
  case 0
  then have "r = 51" by simp
  then show ?case using "0.prems" by (simp add: irise_loop.simps [of 51])
next
  case (Suc n)
  then have r: "1 \<le> r" "r \<le> 50" by simp_all
  obtain st1 where st1: "idrop_loop 1 r ncases lookback open' close st = Inr st1"
      "record_of T C cells (scanned r 51) st1"
    using idrop_loop_record [of lookback ncases open' close r T C 1 cells st]
      trials [OF r] r Suc.prems(3) by auto
  have "n = nat (51 - (r + 1))" using Suc.hyps(2) by simp
  then have "\<exists>st'. irise_loop (r + 1) ncases lookback open' close st1 = Inr st' \<and>
      record_of T C cells (scanned 51 1) st'"
    using r st1(2) by (intro Suc.hyps(1)) (simp_all add: scanned_next_rise)
  moreover have "irise_loop r ncases lookback open' close st =
      irise_loop (r + 1) ncases lookback open' close st1"
    using r st1(1) by (simp add: irise_loop.simps [of r])
  ultimately show ?case by simp
qed

text \<open>
  The grid search as a whole: when the trials run without an access out of bounds, with
  returns \<open>T\<close> and counts \<open>C\<close>, \<^verbatim>\<open>opt_params\<close> returns the record over the whole grid.
\<close>

lemma opt_params_record:
  assumes "\<And>r d. 1 \<le> r \<Longrightarrow> r \<le> 50 \<Longrightarrow> 1 \<le> d \<Longrightarrow> d \<le> 50 \<Longrightarrow>
      trial_loop lookback ncases lookback open' close (spec_rise r) (spec_drop d) (0, 0) =
        Inr (T (r, d), C (r, d))"
  shows "\<exists>st'. opt_params ncases lookback open' close cells = Inr st' \<and>
           record_of T C cells ({1..50} \<times> {1..50}) st'"
proof -
  have "record_of T C cells (scanned 1 1) (- fl (10 ^ 60), cells)"
    by (simp add: record_of_def scanned_first)
  then show ?thesis
    using irise_loop_record [of lookback ncases open' close T C 1 cells "(- fl (10 ^ 60), cells)"]
      assms
    by (simp add: opt_params_def scanned_last)
qed

subsection \<open>No trial comes near the start of the record\<close>

lemma foldl_fl_bound:
  assumes "\<forall>x\<in>set xs. \<bar>x\<bar> \<le> 1492"
  shows "\<bar>a\<bar> \<le> of_int (int n * 1492) \<Longrightarrow> int n + int (length xs) \<le> 2147483648 \<Longrightarrow>
     \<bar>foldl (\<lambda>s x. fl (s + x)) a xs\<bar> \<le> of_int ((int n + int (length xs)) * 1492)"
  using assms
proof (induction xs arbitrary: a n)
  case Nil
  then show ?case by simp
next
  case (Cons x xs)
  have x: "\<bar>x\<bar> \<le> 1492" using Cons.prems(3) by simp
  have "\<bar>a + x\<bar> \<le> of_int (int (Suc n) * 1492)"
    using Cons.prems(1) x by (simp add: algebra_simps)
  moreover have "\<bar>int (Suc n) * 1492\<bar> < 2 ^ 53" using Cons.prems(2) by simp
  ultimately have "\<bar>fl (a + x)\<bar> \<le> of_int (int (Suc n) * 1492)" by (rule fl_abs_le)
  moreover have "int (Suc n) + int (length xs) \<le> 2147483648" using Cons.prems(2) by simp
  moreover have "\<forall>y\<in>set xs. \<bar>y\<bar> \<le> 1492" using Cons.prems(3) by simp
  ultimately have "\<bar>foldl (\<lambda>s x. fl (s + x)) (fl (a + x)) xs\<bar> \<le>
      of_int ((int (Suc n) + int (length xs)) * 1492)"
    by (rule Cons.IH)
  then show ?case by simp
qed

lemma spec_return_at_bound:
  assumes bound: "\<forall>x\<in>set open'. \<bar>x\<bar> \<le> 746"
    and len: "int (length open') = ncases" and i: "0 \<le> i" "i \<le> ncases - 3"
  shows "\<bar>spec_return_at lookback open' close rt dt i\<bar> \<le> 1492"
proof -
  have "nat (i + 2) < length open'" "nat (i + 1) < length open'"
    using i len by auto
  then have "\<bar>open' ! nat (i + 2)\<bar> \<le> 746" "\<bar>open' ! nat (i + 1)\<bar> \<le> 746"
    using bound nth_mem by blast+
  then have "\<bar>open' ! nat (i + 2) - open' ! nat (i + 1)\<bar> \<le> of_int 1492" by simp
  then have "\<bar>fl (open' ! nat (i + 2) - open' ! nat (i + 1))\<bar> \<le> of_int 1492"
    by (rule fl_abs_le) simp
  then show ?thesis by (simp add: spec_return_at_def)
qed

lemma start_below: "fl (10 ^ 60) \<ge> 2 ^ 43"
proof -
  have "fl (of_int (2 ^ 43)) \<le> fl (10 ^ 60)" by (intro fl_mono) simp
  moreover have "fl (of_int (2 ^ 43)) = of_int (2 ^ 43)" by (rule fl_of_int) simp
  ultimately show ?thesis by simp
qed

text \<open>
  A log price is the logarithm of a positive \<^verbatim>\<open>double\<close>, between \<open>-745.2\<close> and \<open>709.8\<close>,
  and an \<^verbatim>\<open>int\<close> is at most \<open>2^31 - 1\<close>: no trial's return comes near the \<open>-1e60\<close> that
  \<^verbatim>\<open>best_perf\<close> starts from.
\<close>

lemma log_prices_above_start:
  assumes "\<forall>x\<in>set open'. \<bar>x\<bar> \<le> 746" and "int (length open') = ncases"
    and "ncases \<le> 2147483647" and "0 \<le> lookback"
  shows "- fl (10 ^ 60) < spec_cumulative_return ncases lookback open' close rt dt"
proof -
  let ?xs = "map (spec_return_at lookback open' close rt dt) [lookback..ncases - 3]"
  have each: "\<forall>x\<in>set ?xs. \<bar>x\<bar> \<le> 1492"
    using assms by (auto intro!: spec_return_at_bound)
  have len: "int (length ?xs) \<le> 2147483647"
    using assms(3,4) by simp
  have "\<bar>foldl (\<lambda>s x. fl (s + x)) 0 ?xs\<bar> \<le> of_int ((int 0 + int (length ?xs)) * 1492)"
    using each len by (intro foldl_fl_bound) simp_all
  also have "\<dots> \<le> of_int (2147483647 * 1492)"
    using len by (simp only: of_int_le_iff) simp
  also have "\<dots> < 2 ^ 43" by simp
  finally have "\<bar>spec_cumulative_return ncases lookback open' close rt dt\<bar> < 2 ^ 43"
    by (simp add: spec_cumulative_return_def fsum_def)
  then show ?thesis using start_below by linarith
qed

text \<open>
  With every trial's return above \<open>-1e60\<close>, \<^verbatim>\<open>opt_params\<close> returns the first pair of the
  grid, in the order of the loops, whose return is the greatest.
\<close>

lemma opt_params_first_best:
  fixes ncases lookback open' close
  defines "T \<equiv> \<lambda>p. spec_cumulative_return ncases lookback open' close
                       (spec_rise (fst p)) (spec_drop (snd p))"
    and "C \<equiv> \<lambda>p. spec_long_count ncases lookback close (spec_rise (fst p)) (spec_drop (snd p))"
  assumes "1 \<le> lookback"
    and "int (length open') = ncases" "int (length close) = ncases"
    and "\<forall>x\<in>set open'. \<bar>x\<bar> \<le> 746" and "ncases \<le> 2147483647"
  shows "\<exists>p\<in>{1..50} \<times> {1..50}.
     opt_params ncases lookback open' close cells =
       Inr (T p, spec_rise (fst p), spec_drop (snd p), C p) \<and>
     (\<forall>q\<in>{1..50} \<times> {1..50}. T q \<le> T p \<and>
        (T q = T p \<longrightarrow> fst p < fst q \<or> (fst p = fst q \<and> snd p \<le> snd q)))"
proof -
  have trials: "trial_loop lookback ncases lookback open' close (spec_rise r) (spec_drop d) (0, 0) =
      Inr (T (r, d), C (r, d))" for r d
    using assms(3-5) by (simp add: trial_loop_spec T_def C_def)
  obtain st where st: "opt_params ncases lookback open' close cells = Inr st"
      "record_of T C cells ({1..50} \<times> {1..50}) st"
    using opt_params_record [of lookback ncases open' close T C cells] trials by blast
  have "- fl (10 ^ 60) < T (1, 1)"
    unfolding T_def using assms(3-7) by (intro log_prices_above_start) simp_all
  moreover have "(1::int, 1::int) \<in> {1..50} \<times> {1..50}" by simp
  ultimately have "\<not> (\<forall>q\<in>{1..50} \<times> {1..50}. T q \<le> - fl (10 ^ 60))"
    by (metis not_le)
  then show ?thesis using st unfolding record_of_def by blast
qed

subsection \<open>The thresholds of the grid ascend\<close>

lemma fl_multiples_ascend:
  assumes c: "0 < c" and k: "1 \<le> k" "k < 50"
  shows "fl (real_of_int k * c) < fl (real_of_int (k + 1) * c)"
proof -
  define a where "a = real_of_int k * c"
  have a: "0 < a" "a \<le> 50 * c"
    unfolding a_def using c k by (simp_all add: mult_right_mono)
  have b: "real_of_int (k + 1) * c = a + c" by (simp add: a_def algebra_simps)
  have p: "(2::real) ^ 53 = 9007199254740992" by simp
  have "fl a \<le> a + a / 9007199254740992"
    using fl_error [OF a(1)] unfolding p by linarith
  moreover have "0 < a + c" using a(1) c by simp
  then have "a + c - (a + c) / 9007199254740992 \<le> fl (a + c)"
    using fl_error [of "a + c"] unfolding p by linarith
  moreover have "(a + (a + c)) / 9007199254740992 \<le> 101 * c / 9007199254740992"
    using a(2) by (intro divide_right_mono) simp_all
  then have "a / 9007199254740992 + (a + c) / 9007199254740992 < c"
    using c by (simp only: add_divide_distrib)
  then have "a + a / 9007199254740992 < a + c - (a + c) / 9007199254740992"
    by linarith
  ultimately show ?thesis unfolding b a_def [symmetric] by linarith
qed

lemma fl_multiples_strict_mono:
  assumes c: "0 < c"
  shows "1 \<le> k \<Longrightarrow> k < k' \<Longrightarrow> k' \<le> 50 \<Longrightarrow>
     fl (real_of_int k * c) < fl (real_of_int k' * c)"
proof -
  assume k: "1 \<le> k" "k < k'" "k' \<le> 50"
  have "fl (real_of_int k * c) < fl (real_of_int (k + 1) * c)"
    using c k by (intro fl_multiples_ascend) simp_all
  also have "\<dots> \<le> fl (real_of_int k' * c)"
    using c k by (intro fl_mono mult_right_mono) simp_all
  finally show ?thesis .
qed

lemma literals_positive: "0 < fl 0.005" "0 < fl 0.0005"
  by (rule fl_pos, simp)+

lemma spec_rise_less:
  assumes "r \<in> {1..50}" "r' \<in> {1..50}"
  shows "spec_rise r < spec_rise r' \<longleftrightarrow> r < r'"
proof
  assume "r < r'"
  then show "spec_rise r < spec_rise r'"
    unfolding spec_rise_def using assms
    by (intro fl_multiples_strict_mono literals_positive) simp_all
next
  assume less: "spec_rise r < spec_rise r'"
  show "r < r'"
  proof (rule ccontr)
    assume "\<not> r < r'"
    then have "real_of_int r' * fl 0.005 \<le> real_of_int r * fl 0.005"
      using literals_positive(1) by (intro mult_right_mono) simp_all
    then have "spec_rise r' \<le> spec_rise r" unfolding spec_rise_def by (rule fl_mono)
    then show False using less by simp
  qed
qed

lemma spec_drop_less:
  assumes "d \<in> {1..50}" "d' \<in> {1..50}"
  shows "spec_drop d < spec_drop d' \<longleftrightarrow> d < d'"
proof
  assume "d < d'"
  then show "spec_drop d < spec_drop d'"
    unfolding spec_drop_def using assms
    by (intro fl_multiples_strict_mono literals_positive) simp_all
next
  assume less: "spec_drop d < spec_drop d'"
  show "d < d'"
  proof (rule ccontr)
    assume "\<not> d < d'"
    then have "real_of_int d' * fl 0.0005 \<le> real_of_int d * fl 0.0005"
      using literals_positive(2) by (intro mult_right_mono) simp_all
    then have "spec_drop d' \<le> spec_drop d" unfolding spec_drop_def by (rule fl_mono)
    then show False using less by simp
  qed
qed

lemma spec_rise_eq:
  assumes "r \<in> {1..50}" "r' \<in> {1..50}"
  shows "spec_rise r = spec_rise r' \<longleftrightarrow> r = r'"
  using spec_rise_less [OF assms] spec_rise_less [OF assms(2,1)] by force

lemma spec_drop_le:
  assumes "d \<in> {1..50}" "d' \<in> {1..50}"
  shows "spec_drop d \<le> spec_drop d' \<longleftrightarrow> d \<le> d'"
  using spec_drop_less [OF assms(2,1)] by force

subsection \<open>The optimum\<close>

text \<open>
  Claim C4. The series has \<open>ncases\<close> log prices of each kind and \<open>lookback\<close> is at least 1
  (the rule reads \<^verbatim>\<open>close[i-1]\<close> from \<open>i = lookback\<close> on). Then \<^verbatim>\<open>opt_params\<close> returns a pair
  of the grid with the greatest return, and every pair of the grid with the same return
  has a greater rise threshold, or the same rise threshold and a drop threshold that is
  not smaller: the returned pair is the first one with the greatest return, in the order
  of the loops. Returns and thresholds are the numbers that \<^verbatim>\<open>double\<close> arithmetic gives.
\<close>

theorem opt_params_tie_break:
  assumes "int (length open') = ncases" and "int (length close) = ncases"
    and "1 \<le> lookback"
    and "\<forall>x\<in>set open'. \<bar>x\<bar> \<le> 746" and "ncases \<le> 2147483647"
  shows "\<exists>r\<in>{1..50}. \<exists>d\<in>{1..50}. \<exists>nl.
     opt_params ncases lookback open' close cells =
       Inr (spec_cumulative_return ncases lookback open' close (spec_rise r) (spec_drop d),
            spec_rise r, spec_drop d, nl) \<and>
     (\<forall>r'\<in>{1..50}. \<forall>d'\<in>{1..50}.
        spec_cumulative_return ncases lookback open' close (spec_rise r') (spec_drop d') \<le>
        spec_cumulative_return ncases lookback open' close (spec_rise r) (spec_drop d) \<and>
        (spec_cumulative_return ncases lookback open' close (spec_rise r') (spec_drop d') =
         spec_cumulative_return ncases lookback open' close (spec_rise r) (spec_drop d) \<longrightarrow>
           spec_rise r < spec_rise r' \<or>
           (spec_rise r = spec_rise r' \<and> spec_drop d \<le> spec_drop d')))"
proof -
  obtain p where p: "p \<in> {1..50} \<times> {1..50}"
    "opt_params ncases lookback open' close cells =
       Inr (spec_cumulative_return ncases lookback open' close
              (spec_rise (fst p)) (spec_drop (snd p)),
            spec_rise (fst p), spec_drop (snd p),
            spec_long_count ncases lookback close (spec_rise (fst p)) (spec_drop (snd p)))"
    "\<forall>q\<in>{1..50} \<times> {1..50}.
       spec_cumulative_return ncases lookback open' close
         (spec_rise (fst q)) (spec_drop (snd q)) \<le>
       spec_cumulative_return ncases lookback open' close
         (spec_rise (fst p)) (spec_drop (snd p)) \<and>
       (spec_cumulative_return ncases lookback open' close
          (spec_rise (fst q)) (spec_drop (snd q)) =
        spec_cumulative_return ncases lookback open' close
          (spec_rise (fst p)) (spec_drop (snd p)) \<longrightarrow>
        fst p < fst q \<or> (fst p = fst q \<and> snd p \<le> snd q))"
    using opt_params_first_best [OF assms(3,1,2,4,5), of cells] by blast
  have pp: "fst p \<in> {1..50}" "snd p \<in> {1..50}" using p(1) by auto
  have "\<forall>r'\<in>{1..50}. \<forall>d'\<in>{1..50}.
        spec_cumulative_return ncases lookback open' close (spec_rise r') (spec_drop d') \<le>
        spec_cumulative_return ncases lookback open' close
          (spec_rise (fst p)) (spec_drop (snd p)) \<and>
        (spec_cumulative_return ncases lookback open' close (spec_rise r') (spec_drop d') =
         spec_cumulative_return ncases lookback open' close
           (spec_rise (fst p)) (spec_drop (snd p)) \<longrightarrow>
           spec_rise (fst p) < spec_rise r' \<or>
           (spec_rise (fst p) = spec_rise r' \<and> spec_drop (snd p) \<le> spec_drop d'))"
  proof (intro ballI)
    fix r' d' :: int
    assume rd: "r' \<in> {1..50}" "d' \<in> {1..50}"
    then have "(r', d') \<in> {1..50} \<times> {1..50}" by simp
    from p(3) [rule_format, OF this] show
      "spec_cumulative_return ncases lookback open' close (spec_rise r') (spec_drop d') \<le>
        spec_cumulative_return ncases lookback open' close
          (spec_rise (fst p)) (spec_drop (snd p)) \<and>
        (spec_cumulative_return ncases lookback open' close (spec_rise r') (spec_drop d') =
         spec_cumulative_return ncases lookback open' close
           (spec_rise (fst p)) (spec_drop (snd p)) \<longrightarrow>
           spec_rise (fst p) < spec_rise r' \<or>
           (spec_rise (fst p) = spec_rise r' \<and> spec_drop (snd p) \<le> spec_drop d'))"
      by (simp add: spec_rise_less [OF pp(1) rd(1)] spec_rise_eq [OF pp(1) rd(1)]
          spec_drop_le [OF pp(2) rd(2)])
  qed
  then show ?thesis using p(2) pp by blast
qed

text \<open>
  Claim C7. For a series of \<open>ncases\<close> log prices of each kind and \<open>1 \<le> lookback \<le> ncases - 3\<close>,
  \<^verbatim>\<open>opt_params\<close> returns the greatest of the 2500 cumulative returns of the grid, as the
  specification defines them and \<^verbatim>\<open>double\<close> arithmetic computes them, with a pair of
  thresholds of the grid that reaches it and the number of indices at which the rule fires
  for that pair.
\<close>

theorem opt_params_returns_maximum:
  assumes "int (length open') = ncases" and "int (length close) = ncases"
    and "1 \<le> lookback" and "lookback \<le> ncases - 3"
    and "\<forall>x\<in>set open'. \<bar>x\<bar> \<le> 746" and "ncases \<le> 2147483647"
  shows "\<exists>r\<in>{1..50}. \<exists>d\<in>{1..50}.
     opt_params ncases lookback open' close cells =
       Inr (Max ((\<lambda>(r', d'). spec_cumulative_return ncases lookback open' close
                              (spec_rise r') (spec_drop d')) ` ({1..50} \<times> {1..50})),
            spec_rise r, spec_drop d,
            spec_long_count ncases lookback close (spec_rise r) (spec_drop d)) \<and>
     spec_cumulative_return ncases lookback open' close (spec_rise r) (spec_drop d) =
       Max ((\<lambda>(r', d'). spec_cumulative_return ncases lookback open' close
                           (spec_rise r') (spec_drop d')) ` ({1..50} \<times> {1..50}))"
proof -
  let ?T = "\<lambda>(r', d'). spec_cumulative_return ncases lookback open' close
                           (spec_rise r') (spec_drop d')"
  obtain p where p: "p \<in> {1..50} \<times> {1..50}"
    "opt_params ncases lookback open' close cells =
       Inr (?T p, spec_rise (fst p), spec_drop (snd p),
            spec_long_count ncases lookback close (spec_rise (fst p)) (spec_drop (snd p)))"
    "\<forall>q\<in>{1..50} \<times> {1..50}. ?T q \<le> ?T p"
    using opt_params_first_best [OF assms(3,1,2,5,6), of cells]
    by (auto simp: split_beta)
  have "Max (?T ` ({1..50} \<times> {1..50})) = ?T p"
  proof (rule Max_eqI)
    show "finite (?T ` ({1..50} \<times> {1..50}))" by simp
    show "?T p \<in> ?T ` ({1..50} \<times> {1..50})" using p(1) by (rule imageI)
    show "y \<le> ?T p" if "y \<in> ?T ` ({1..50} \<times> {1..50})" for y
      using that p(3) by auto
  qed
  then have M: "Max (?T ` ({1..50} \<times> {1..50})) =
      spec_cumulative_return ncases lookback open' close (spec_rise (fst p)) (spec_drop (snd p))"
    by (simp add: split_beta)
  have "fst p \<in> {1..50}" "snd p \<in> {1..50}" using p(1) by auto
  then show ?thesis
    using p(2) M
    by (intro bexI [where x = "fst p"] bexI [where x = "snd p"]) (simp_all add: split_beta)
qed

text \<open>
  Outside the hypotheses of the two theorems: with a lookback of 0 the first case reads
  \<^verbatim>\<open>close[-1]\<close>.
\<close>

lemma opt_params_lookback_0:
  assumes "3 \<le> ncases"
  shows "opt_params ncases 0 open' close cells = Inl OutOfBounds"
proof -
  have "trial_case 0 open' close rt dt 0 acc = Inl OutOfBounds" for rt dt acc
    by (simp add: trial_case_def rd_def bind_err_def)
  then have "trial_loop 0 ncases 0 open' close rt dt acc = Inl OutOfBounds" for rt dt acc
    using assms by (simp add: trial_loop.simps [of 0])
  then show ?thesis
    by (simp add: opt_params_def irise_loop.simps [of 1] idrop_loop.simps [of 1] Let_def)
qed

subsection \<open>Two series\<close>

lemma literals_small: "fl 0.005 \<le> 1 / 128" "fl 0.0005 \<le> 1 / 128" "fl 0.105 \<le> 1 / 2"
proof -
  have e: "fl (1 / 128) = 1 / 128" using fl_exact [of 1 "- 7"] by simp
  have "fl 0.005 \<le> fl (1 / 128)" "fl 0.0005 \<le> fl (1 / 128)" "fl 0.105 \<le> fl (1 / 2)"
    by (rule fl_mono, simp)+
  then show "fl 0.005 \<le> 1 / 128" "fl 0.0005 \<le> 1 / 128" "fl 0.105 \<le> 1 / 2"
    by (simp_all only: e half_double)
qed

lemma grid_below_half:
  assumes "k \<in> {1..50}"
  shows "spec_rise k \<le> 1 / 2" and "spec_drop k \<le> 1 / 2"
proof -
  have k: "0 \<le> real_of_int k" "real_of_int k \<le> 50" using assms by simp_all
  have "real_of_int k * c \<le> 1 / 2" if c: "0 < c" "c \<le> 1 / 128" for c
  proof -
    have "real_of_int k * c \<le> 50 * c" using k c(1) by (intro mult_right_mono) simp_all
    also have "\<dots> \<le> 50 * (1 / 128)" using c(2) by (intro mult_left_mono) simp_all
    also have "\<dots> \<le> 1 / 2" by simp
    finally show ?thesis .
  qed
  then have "real_of_int k * fl 0.005 \<le> 1 / 2" "real_of_int k * fl 0.0005 \<le> 1 / 2"
    using literals_positive literals_small(1,2) by blast+
  then have "fl (real_of_int k * fl 0.005) \<le> fl (1 / 2)"
    "fl (real_of_int k * fl 0.0005) \<le> fl (1 / 2)"
    by (simp_all only: fl_mono)
  then show "spec_rise k \<le> 1 / 2" and "spec_drop k \<le> 1 / 2"
    by (simp_all only: spec_rise_def spec_drop_def half_double)
qed

lemma first_thresholds: "spec_rise 1 = fl 0.005" "spec_drop 1 = fl 0.0005"
  by (simp_all add: spec_rise_def spec_drop_def)

text \<open>
  A series where all 2500 pairs tie: the only case, index 2, fires for every pair and
  returns 1.
\<close>

lemma all_pairs_tie:
  assumes "r \<in> {1..50}" "d \<in> {1..50}"
  shows "spec_cumulative_return 5 2 [0, 0, 0, 0, 1] [0, 1, 0.5, 0, 0]
     (spec_rise r) (spec_drop d) = 1"
proof -
  have "spec_long_signal 2 [0, 1, 0.5, 0, 0] (spec_rise r) (spec_drop d) 2"
    using grid_below_half(1) [OF assms(1)] grid_below_half(2) [OF assms(2)]
    by (simp add: spec_long_signal_def half_double)
  then show ?thesis
    by (simp add: spec_cumulative_return_def fsum_def spec_return_at_def)
qed

text \<open>Claim C4 at that series: the first pair of the grid, \<open>(0.005, 0.0005)\<close>, is returned.\<close>

theorem opt_params_tie_break_witness:
  "\<exists>nl. opt_params 5 2 [0, 0, 0, 0, 1] [0, 1, 0.5, 0, 0] (0, 0, 0) =
     Inr (1, fl 0.005, fl 0.0005, nl)"
proof -
  have h: "int (length [0, 0, 0, 0, 1 :: real]) = 5" "int (length [0, 1, 0.5, 0, 0 :: real]) = 5"
    "(1::int) \<le> 2" "\<forall>x\<in>set [0, 0, 0, 0, 1 :: real]. \<bar>x\<bar> \<le> 746" "(5::int) \<le> 2147483647"
    by simp_all
  let ?T = "\<lambda>r d. spec_cumulative_return 5 2 [0, 0, 0, 0, 1] [0, 1, 0.5, 0, 0]
      (spec_rise r) (spec_drop d)"
  obtain r d nl where rd: "r \<in> {1..50}" "d \<in> {1..50}"
    and res: "opt_params 5 2 [0, 0, 0, 0, 1] [0, 1, 0.5, 0, 0] (0, 0, 0) =
       Inr (?T r d, spec_rise r, spec_drop d, nl)"
    and first: "\<forall>r'\<in>{1..50}. \<forall>d'\<in>{1..50}. ?T r' d' \<le> ?T r d \<and>
        (?T r' d' = ?T r d \<longrightarrow>
           spec_rise r < spec_rise r' \<or> (spec_rise r = spec_rise r' \<and> spec_drop d \<le> spec_drop d'))"
    using opt_params_tie_break [OF h, of "(0, 0, 0)"] by blast
  have one: "(1::int) \<in> {1..50}" by simp
  have "?T 1 1 = ?T r d" using all_pairs_tie [OF rd] all_pairs_tie [OF one one] by simp
  then have "spec_rise r < spec_rise 1 \<or> (spec_rise r = spec_rise 1 \<and> spec_drop d \<le> spec_drop 1)"
    using first one by blast
  then have "r = 1 \<and> d = 1"
    using rd by (simp add: spec_rise_less [OF rd(1) one] spec_rise_eq [OF rd(1) one]
        spec_drop_le [OF rd(2) one])
  then show ?thesis
    using res all_pairs_tie [OF one one] by (simp add: first_thresholds)
qed

text \<open>
  A series whose rise at the only case, index 2, is the \<^verbatim>\<open>double\<close> nearest to 0.105.
  That is also the product \<^verbatim>\<open>21 * 0.005\<close> as \<^verbatim>\<open>double\<close> arithmetic rounds it (both lie
  below the number 0.105): the rule fires for the rise thresholds up to the 21st, and
  loses 1.
\<close>

lemma rise_21: "spec_rise 21 = fl 0.105"
  by (simp add: spec_rise_def fl_def ilog2_def rne_def Let_def compute_bitlen)

lemma fires_up_to_21:
  assumes "r \<in> {1..50}"
  shows "spec_rise r \<le> fl 0.105 \<longleftrightarrow> r \<le> 21"
proof -
  have "(21::int) \<in> {1..50}" by simp
  from spec_rise_less [OF this assms] show ?thesis by (simp only: rise_21) linarith
qed

lemma signal_up_to_21:
  assumes "r \<in> {1..50}" "d \<in> {1..50}"
  shows "spec_long_signal 2 [0, 1, fl 0.105, 0, 0] (spec_rise r) (spec_drop d) 2 \<longleftrightarrow> r \<le> 21"
proof -
  have "1 / 2 \<le> 1 - fl 0.105" using literals_small(3) by simp
  then have "fl (1 / 2) \<le> fl (1 - fl 0.105)" by (rule fl_mono)
  then have "spec_drop d \<le> fl (1 - fl 0.105)"
    using grid_below_half(2) [OF assms(2)] by (simp only: half_double)
  then show ?thesis
    using fires_up_to_21 [OF assms(1)] by (simp add: spec_long_signal_def)
qed

lemma returns_up_to_21:
  assumes "r \<in> {1..50}" "d \<in> {1..50}"
  shows "spec_cumulative_return 5 2 [0, 0, 0, 1, 0] [0, 1, fl 0.105, 0, 0]
     (spec_rise r) (spec_drop d) = (if r \<le> 21 then - 1 else 0)"
  using signal_up_to_21 [OF assms]
  by (simp add: spec_cumulative_return_def fsum_def spec_return_at_def)

lemma counts_up_to_21:
  assumes "r \<in> {1..50}" "d \<in> {1..50}"
  shows "spec_long_count 5 2 [0, 1, fl 0.105, 0, 0] (spec_rise r) (spec_drop d) =
     (if r \<le> 21 then 1 else 0)"
proof -
  have "{i \<in> {2..5 - 3}. spec_long_signal 2 [0, 1, fl 0.105, 0, 0] (spec_rise r) (spec_drop d) i} =
      (if r \<le> 21 then {2} else {})"
    using signal_up_to_21 [OF assms] by auto
  then show ?thesis by (simp add: spec_long_count_def)
qed

text \<open>
  Claim C7 at that series: the greatest return is 0, first reached at the 22nd rise
  threshold, \<^verbatim>\<open>22 * 0.005\<close>, with no long signal.
\<close>

theorem opt_params_returns_maximum_witness:
  "opt_params 5 2 [0, 0, 0, 1, 0] [0, 1, fl 0.105, 0, 0] (0, 0, 0) =
     Inr (0, fl (22 * fl 0.005), fl 0.0005, 0) \<and>
   Max ((\<lambda>(r', d'). spec_cumulative_return 5 2 [0, 0, 0, 1, 0] [0, 1, fl 0.105, 0, 0]
                       (spec_rise r') (spec_drop d')) ` ({1..50} \<times> {1..50})) = 0"
proof -
  let ?open = "[0, 0, 0, 1, 0 :: real]" and ?close = "[0, 1, fl 0.105, 0, 0]"
  let ?T = "\<lambda>p. spec_cumulative_return 5 2 ?open ?close (spec_rise (fst p)) (spec_drop (snd p))"
  have h: "int (length ?open) = 5" "int (length ?close) = 5"
    "(1::int) \<le> 2" "(2::int) \<le> 5 - 3"
    "\<forall>x\<in>set ?open. \<bar>x\<bar> \<le> 746" "(5::int) \<le> 2147483647"
    by simp_all
  have T: "?T q = (if fst q \<le> 21 then - 1 else 0)" if "q \<in> {1..50} \<times> {1..50}" for q
    using that by (intro returns_up_to_21) auto
  obtain p where p: "p \<in> {1..50} \<times> {1..50}"
    "opt_params 5 2 ?open ?close (0, 0, 0) =
       Inr (?T p, spec_rise (fst p), spec_drop (snd p),
            spec_long_count 5 2 ?close (spec_rise (fst p)) (spec_drop (snd p)))"
    "\<forall>q\<in>{1..50} \<times> {1..50}. ?T q \<le> ?T p \<and>
        (?T q = ?T p \<longrightarrow> fst p < fst q \<or> (fst p = fst q \<and> snd p \<le> snd q))"
    using opt_params_first_best [OF h(3,1,2,5,6), of "(0, 0, 0)"] by blast
  have q: "(22::int, 1::int) \<in> {1..50} \<times> {1..50}" by simp
  have Tq: "?T (22, 1) = 0" using T [OF q] by simp
  have "?T (22, 1) \<le> ?T p \<and>
      (?T (22, 1) = ?T p \<longrightarrow> fst p < 22 \<or> (fst p = 22 \<and> snd p \<le> 1))"
    using p(3) q by fastforce
  then have "0 \<le> (if fst p \<le> 21 then - 1 else 0 :: real) \<and>
      (0 = (if fst p \<le> 21 then - 1 else 0 :: real) \<longrightarrow>
         fst p < 22 \<or> (fst p = 22 \<and> snd p \<le> 1))"
    unfolding Tq T [OF p(1)] .
  then have "fst p = 22 \<and> snd p = 1"
    using p(1) by (auto split: if_splits)
  then have pe: "p = (22, 1)" by (simp add: prod_eq_iff)
  have "spec_long_count 5 2 ?close (spec_rise 22) (spec_drop 1) = 0"
    using counts_up_to_21 [of 22 1] by simp
  then have res: "opt_params 5 2 ?open ?close (0, 0, 0) =
      Inr (0, spec_rise 22, spec_drop 1, 0)"
    using p(2) Tq unfolding pe by (simp only: fst_conv snd_conv)
  obtain r d where "opt_params 5 2 ?open ?close (0, 0, 0) =
       Inr (Max ((\<lambda>(r', d'). spec_cumulative_return 5 2 ?open ?close
                              (spec_rise r') (spec_drop d')) ` ({1..50} \<times> {1..50})),
            spec_rise r, spec_drop d,
            spec_long_count 5 2 ?close (spec_rise r) (spec_drop d))"
    using opt_params_returns_maximum [OF h, of "(0, 0, 0)"] by blast
  then have "Max ((\<lambda>(r', d'). spec_cumulative_return 5 2 ?open ?close
                              (spec_rise r') (spec_drop d')) ` ({1..50} \<times> {1..50})) = 0"
    using res by simp
  then show ?thesis using res by (simp add: spec_rise_def first_thresholds)
qed

section \<open>Properties of the permutation routines\<close>

declare prepare_loop.simps [simp del] shuffle_open.simps [simp del]
  shuffle_triplet.simps [simp del] rebuild_loop.simps [simp del]

subsection \<open>A swap\<close>

lemma swap_in:
  assumes "0 \<le> i" "i < int (length a)" "0 \<le> j" "j < int (length a)"
  shows "swap a i j = Inr (a[nat i := a ! nat j, nat j := a ! nat i])"
  using assms by (simp add: swap_def rd_in wr_in)

lemma swap_length: "swap a i j = Inr a' \<Longrightarrow> length a' = length a"
  by (auto simp: swap_def rd_def wr_def bind_err_def split: if_splits)

lemma swap_mset:
  assumes "0 \<le> i" "i < int (length a)" "0 \<le> j" "j < int (length a)"
  shows "mset (a[nat i := a ! nat j, nat j := a ! nat i]) = mset a"
  using assms by (intro mset_swap) simp_all

lemma swap_nth_other:
  assumes "k \<noteq> nat i" "k \<noteq> nat j"
  shows "a[nat i := x, nat j := y] ! k = a ! k"
  using assms by simp

subsection \<open>The index drawn\<close>

lemma draw_j_range:
  assumes "0 \<le> u" and "1 < i"
  shows "0 \<le> draw_j u i \<and> draw_j u i < i"
proof -
  have "0 \<le> u * real_of_int i" using assms by simp
  then have "0 \<le> fl (u * real_of_int i)" by (rule fl_nonneg)
  then have "0 \<le> trunc_int (fl (u * real_of_int i))" by (simp add: trunc_int_def)
  then show ?thesis using assms(2) by (simp add: draw_j_def Let_def)
qed

text \<open>
  The two roundings count. For the word 2610666395 and 51 changes left the product with
  the number \<open>1 / (2^32 - 1)\<close> is 31, but the product with \<^verbatim>\<open>mult\<close>, rounded, and then
  with 51, rounded, lies below 31: the index drawn is 30.
\<close>

lemma draw_j_rounded: "draw_j (unifrand_of 2610666395) 51 = 30"
  by (simp add: draw_j_def unifrand_of_def trunc_int_def fl_def ilog2_def rne_def
      compute_bitlen Let_def)

text \<open>A word below \<open>2^20\<close> draws the index 0 as long as at most 512 changes are left.\<close>

lemma unifrand_of_small:
  assumes "uint w \<le> 1048576"
  shows "unifrand_of w \<le> 1 / 1024"
proof -
  have "real_of_int (uint w) \<le> 1048576" using assms by linarith
  then have "4294967297 / 2 ^ 64 * real_of_int (uint w) \<le> 1 / 1024" by simp
  then have "fl (4294967297 / 2 ^ 64 * real_of_int (uint w)) \<le> fl (1 / 1024)" by (rule fl_mono)
  moreover have "fl (1 / 1024) = 1 / 1024" using fl_exact [of 1 "- 10"] by simp
  ultimately show ?thesis by (simp only: unifrand_of_as_product)
qed

lemma draw_j_first:
  assumes "uint w \<le> 1048576" and "1 \<le> i" and "i \<le> 512"
  shows "draw_j (unifrand_of w) i = 0"
proof -
  define u where "u = unifrand_of w"
  have u: "0 \<le> u" "u \<le> 1 / 1024"
    using unifrand_of_bounds [of w] unifrand_of_small [OF assms(1)] by (simp_all add: u_def)
  have i: "0 < real_of_int i" "real_of_int i \<le> 512" using assms(2,3) by simp_all
  have "u * real_of_int i \<le> 1 / 1024 * 512" using u i by (intro mult_mono) simp_all
  then have "u * real_of_int i \<le> 1 / 2" by simp
  then have "fl (u * real_of_int i) \<le> fl (1 / 2)" by (rule fl_mono)
  moreover have "0 \<le> fl (u * real_of_int i)" using u(1) i(1) by (intro fl_nonneg) simp
  ultimately have "trunc_int (fl (u * real_of_int i)) = 0"
    by (simp add: trunc_int_def half_double) linarith
  then show ?thesis using assms(2) by (simp add: draw_j_def Let_def u_def)
qed

lemma unifrand_nonneg: "0 \<le> fst (unifrand g)"
  using unifrand_of_bounds [of "fst (RAND32M g)"] by (simp add: unifrand_def split_beta)

subsection \<open>The first shuffling loop\<close>

lemma shuffle_open_permutes:
  assumes "0 \<le> off"
  shows "i + off \<le> int (length ro) \<Longrightarrow>
     \<exists>ro' g'. shuffle_open i off ro g = Inr (ro', g') \<and> length ro' = length ro \<and>
        mset ro' = mset ro \<and>
        (\<forall>k. \<not> (off \<le> int k \<and> int k < off + i) \<longrightarrow> ro' ! k = ro ! k)"
proof (induction "nat i" arbitrary: i ro g)
  case 0
  then have "\<not> i > 1" by simp
  then show ?case by (simp add: shuffle_open.simps [of i])
next
  case (Suc n)
  show ?case
  proof (cases "i > 1")
    case False
    then show ?thesis by (simp add: shuffle_open.simps [of i])
  next
    case True
    obtain u g1 where ug: "unifrand g = (u, g1)" by (cases "unifrand g")
    define j where "j = draw_j u i"
    have "0 \<le> u" using unifrand_nonneg [of g] ug by simp
    then have j: "0 \<le> j" "j < i" using draw_j_range [OF _ True] by (simp_all add: j_def)
    let ?a = "nat (i - 1 + off)" and ?b = "nat (j + off)"
    define ro1 where "ro1 = ro[?a := ro ! ?b, ?b := ro ! ?a]"
    have sw: "swap ro (i - 1 + off) (j + off) = Inr ro1"
      unfolding ro1_def using True j assms Suc.prems by (intro swap_in) simp_all
    have len1: "length ro1 = length ro" by (simp add: ro1_def)
    have ms1: "mset ro1 = mset ro"
      unfolding ro1_def using True j assms Suc.prems by (intro swap_mset) simp_all
    have out1: "ro1 ! k = ro ! k" if "\<not> (off \<le> int k \<and> int k < off + i)" for k
    proof -
      have "int ?a = i - 1 + off" "int ?b = j + off" using True j assms by simp_all
      moreover have "int k \<noteq> i - 1 + off" "int k \<noteq> j + off"
        using that True j by linarith+
      ultimately have "k \<noteq> ?a" "k \<noteq> ?b" by metis+
      then show ?thesis unfolding ro1_def by simp
    qed
    have "n = nat (i - 1)" using Suc.hyps(2) by simp
    moreover have "i - 1 + off \<le> int (length ro1)" using Suc.prems len1 by simp
    ultimately obtain ro' g' where r: "shuffle_open (i - 1) off ro1 g1 = Inr (ro', g')"
        "length ro' = length ro1" "mset ro' = mset ro1"
        "\<forall>k. \<not> (off \<le> int k \<and> int k < off + (i - 1)) \<longrightarrow> ro' ! k = ro1 ! k"
      using Suc.hyps(1) [of "i - 1" ro1 g1] by blast
    have "shuffle_open i off ro g = Inr (ro', g')"
      using True ug sw r(1) by (simp add: shuffle_open.simps [of i] Let_def j_def)
    moreover have "ro' ! k = ro ! k" if "\<not> (off \<le> int k \<and> int k < off + i)" for k
    proof -
      have "\<not> (off \<le> int k \<and> int k < off + (i - 1))" using that by linarith
      then have "ro' ! k = ro1 ! k" using r(4) by blast
      then show ?thesis using out1 [OF that] by simp
    qed
    ultimately show ?thesis using r(2,3) len1 ms1 by simp
  qed
qed

subsection \<open>The second shuffling loop\<close>

lemma swap3_in:
  assumes "0 \<le> i" "0 \<le> j"
    and "i < int (length (rel_high c))" "j < int (length (rel_high c))"
    and "i < int (length (rel_low c))" "j < int (length (rel_low c))"
    and "i < int (length (rel_close c))" "j < int (length (rel_close c))"
  shows "swap3 c i j = Inr (c\<lparr>
      rel_high := (rel_high c)[nat i := rel_high c ! nat j, nat j := rel_high c ! nat i],
      rel_low := (rel_low c)[nat i := rel_low c ! nat j, nat j := rel_low c ! nat i],
      rel_close := (rel_close c)[nat i := rel_close c ! nat j, nat j := rel_close c ! nat i]\<rparr>)"
  using assms by (simp add: swap3_def swap_in)

lemma mset_zip3_swap:
  assumes "a < length xs" "b < length xs" "a < length ys" "b < length ys"
    "a < length zs" "b < length zs"
  shows "mset (zip (xs[a := xs ! b, b := xs ! a])
                (zip (ys[a := ys ! b, b := ys ! a]) (zs[a := zs ! b, b := zs ! a]))) =
     mset (zip xs (zip ys zs))"
proof -
  let ?Z = "zip xs (zip ys zs)"
  have len: "a < length ?Z" "b < length ?Z" using assms by simp_all
  have "zip (xs[a := xs ! b, b := xs ! a])
          (zip (ys[a := ys ! b, b := ys ! a]) (zs[a := zs ! b, b := zs ! a])) =
        ?Z[a := ?Z ! b, b := ?Z ! a]"
    using assms by (simp add: update_zip)
  then show ?thesis using mset_swap [OF len(2) len(1)] by (simp only:)
qed

lemma shuffle_triplet_permutes:
  "i \<le> int (length (rel_high c)) \<Longrightarrow> i \<le> int (length (rel_low c)) \<Longrightarrow>
   i \<le> int (length (rel_close c)) \<Longrightarrow>
     \<exists>c' g'. shuffle_triplet i c g = Inr (c', g') \<and> rel_open c' = rel_open c \<and>
        length (rel_high c') = length (rel_high c) \<and>
        length (rel_low c') = length (rel_low c) \<and>
        length (rel_close c') = length (rel_close c) \<and>
        mset (rel_high c') = mset (rel_high c) \<and>
        mset (rel_low c') = mset (rel_low c) \<and>
        mset (rel_close c') = mset (rel_close c) \<and>
        mset (triplets c') = mset (triplets c) \<and>
        (\<forall>k. \<not> int k < i \<longrightarrow>
           rel_high c' ! k = rel_high c ! k \<and> rel_low c' ! k = rel_low c ! k \<and>
           rel_close c' ! k = rel_close c ! k)"
proof (induction "nat i" arbitrary: i c g)
  case 0
  then have "\<not> i > 1" by simp
  then show ?case by (simp add: shuffle_triplet.simps [of i])
next
  case (Suc n)
  show ?case
  proof (cases "i > 1")
    case False
    then show ?thesis by (simp add: shuffle_triplet.simps [of i])
  next
    case True
    obtain u g1 where ug: "unifrand g = (u, g1)" by (cases "unifrand g")
    define j where "j = draw_j u i"
    have "0 \<le> u" using unifrand_nonneg [of g] ug by simp
    then have j: "0 \<le> j" "j < i" using draw_j_range [OF _ True] by (simp_all add: j_def)
    let ?a = "nat (i - 1)" and ?b = "nat j"
    define c1 where "c1 = c\<lparr>
      rel_high := (rel_high c)[?a := rel_high c ! ?b, ?b := rel_high c ! ?a],
      rel_low := (rel_low c)[?a := rel_low c ! ?b, ?b := rel_low c ! ?a],
      rel_close := (rel_close c)[?a := rel_close c ! ?b, ?b := rel_close c ! ?a]\<rparr>"
    have sw: "swap3 c (i - 1) j = Inr c1"
      unfolding c1_def using True j Suc.prems by (intro swap3_in) simp_all
    have ab: "?a < length (rel_high c)" "?b < length (rel_high c)"
      "?a < length (rel_low c)" "?b < length (rel_low c)"
      "?a < length (rel_close c)" "?b < length (rel_close c)"
      using True j Suc.prems by simp_all
    have c1: "rel_open c1 = rel_open c"
      "length (rel_high c1) = length (rel_high c)"
      "length (rel_low c1) = length (rel_low c)"
      "length (rel_close c1) = length (rel_close c)"
      by (simp_all add: c1_def)
    have ms1: "mset (rel_high c1) = mset (rel_high c)" "mset (rel_low c1) = mset (rel_low c)"
      "mset (rel_close c1) = mset (rel_close c)"
      using ab by (simp_all add: c1_def mset_swap)
    have tr1: "mset (triplets c1) = mset (triplets c)"
      using ab by (simp add: c1_def triplets_def mset_zip3_swap)
    have out1: "rel_high c1 ! k = rel_high c ! k \<and> rel_low c1 ! k = rel_low c ! k \<and>
        rel_close c1 ! k = rel_close c ! k" if "\<not> int k < i" for k
    proof -
      have "int ?a = i - 1" "int ?b = j" using True j by simp_all
      moreover have "int k \<noteq> i - 1" "int k \<noteq> j" using that True j by linarith+
      ultimately have "k \<noteq> ?a" "k \<noteq> ?b" by metis+
      then show ?thesis by (simp add: c1_def)
    qed
    have "n = nat (i - 1)" using Suc.hyps(2) by simp
    moreover have "i - 1 \<le> int (length (rel_high c1))" "i - 1 \<le> int (length (rel_low c1))"
      "i - 1 \<le> int (length (rel_close c1))"
      using Suc.prems c1 by simp_all
    ultimately obtain c' g' where r: "shuffle_triplet (i - 1) c1 g1 = Inr (c', g')"
        "rel_open c' = rel_open c1"
        "length (rel_high c') = length (rel_high c1)"
        "length (rel_low c') = length (rel_low c1)"
        "length (rel_close c') = length (rel_close c1)"
        "mset (rel_high c') = mset (rel_high c1)"
        "mset (rel_low c') = mset (rel_low c1)"
        "mset (rel_close c') = mset (rel_close c1)"
        "mset (triplets c') = mset (triplets c1)"
        "\<forall>k. \<not> int k < i - 1 \<longrightarrow>
           rel_high c' ! k = rel_high c1 ! k \<and> rel_low c' ! k = rel_low c1 ! k \<and>
           rel_close c' ! k = rel_close c1 ! k"
      using Suc.hyps(1) [of "i - 1" c1 g1] by blast
    have "shuffle_triplet i c g = Inr (c', g')"
      using True ug sw r(1) by (simp add: shuffle_triplet.simps [of i] Let_def j_def)
    moreover have "rel_high c' ! k = rel_high c ! k \<and> rel_low c' ! k = rel_low c ! k \<and>
        rel_close c' ! k = rel_close c ! k" if "\<not> int k < i" for k
    proof -
      have "\<not> int k < i - 1" using that by linarith
      then have "rel_high c' ! k = rel_high c1 ! k \<and> rel_low c' ! k = rel_low c1 ! k \<and>
          rel_close c' ! k = rel_close c1 ! k"
        using r(10) by blast
      then show ?thesis using out1 [OF that] by simp
    qed
    ultimately show ?thesis using r(2-9) c1 ms1 tr1 by simp
  qed
qed

subsection \<open>The shuffling step\<close>

lemma shuffle_permutes:
  assumes "nc - 1 \<le> int (length (rel_open c))" "nc - 1 \<le> int (length (rel_high c))"
    "nc - 1 \<le> int (length (rel_low c))" "nc - 1 \<le> int (length (rel_close c))"
  shows "\<exists>c' g'. shuffle nc preserve_OO c g = Inr (c', g') \<and>
     length (rel_open c') = length (rel_open c) \<and>
     length (rel_high c') = length (rel_high c) \<and>
     length (rel_low c') = length (rel_low c) \<and>
     length (rel_close c') = length (rel_close c) \<and>
     mset (rel_open c') = mset (rel_open c) \<and>
     mset (rel_high c') = mset (rel_high c) \<and>
     mset (rel_low c') = mset (rel_low c) \<and>
     mset (rel_close c') = mset (rel_close c) \<and>
     mset (triplets c') = mset (triplets c) \<and>
     (\<forall>k. \<not> ((if preserve_OO \<noteq> 0 then 1 else 0) \<le> int k \<and> int k < nc - 1) \<longrightarrow>
        rel_open c' ! k = rel_open c ! k) \<and>
     (\<forall>k. \<not> int k < nc - 1 - (if preserve_OO \<noteq> 0 then 1 else 0) \<longrightarrow>
        rel_high c' ! k = rel_high c ! k \<and> rel_low c' ! k = rel_low c ! k \<and>
        rel_close c' ! k = rel_close c ! k)"
proof -
  define pre :: int where "pre = (if preserve_OO \<noteq> 0 then 1 else 0)"
  have pre: "0 \<le> pre" "pre \<le> 1" by (simp_all add: pre_def)
  have pre_eq: "(if preserve_OO \<noteq> 0 then 1 else preserve_OO) = pre" by (simp add: pre_def)
  obtain ro g1 where o: "shuffle_open (nc - 1 - pre) pre (rel_open c) g = Inr (ro, g1)"
      "length ro = length (rel_open c)" "mset ro = mset (rel_open c)"
      "\<forall>k. \<not> (pre \<le> int k \<and> int k < pre + (nc - 1 - pre)) \<longrightarrow> ro ! k = rel_open c ! k"
    using shuffle_open_permutes [OF pre(1), of "nc - 1 - pre" "rel_open c" g] assms(1)
    by auto
  let ?c1 = "c\<lparr>rel_open := ro\<rparr>"
  obtain c' g' where t: "shuffle_triplet (nc - 1 - pre) ?c1 g1 = Inr (c', g')"
      "rel_open c' = rel_open ?c1"
      "length (rel_high c') = length (rel_high ?c1)"
      "length (rel_low c') = length (rel_low ?c1)"
      "length (rel_close c') = length (rel_close ?c1)"
      "mset (rel_high c') = mset (rel_high ?c1)"
      "mset (rel_low c') = mset (rel_low ?c1)"
      "mset (rel_close c') = mset (rel_close ?c1)"
      "mset (triplets c') = mset (triplets ?c1)"
      "\<forall>k. \<not> int k < nc - 1 - pre \<longrightarrow>
         rel_high c' ! k = rel_high ?c1 ! k \<and> rel_low c' ! k = rel_low ?c1 ! k \<and>
         rel_close c' ! k = rel_close ?c1 ! k"
    using shuffle_triplet_permutes [of "nc - 1 - pre" ?c1 g1] assms(2-4) pre(1)
    by auto
  have "shuffle nc preserve_OO c g = Inr (c', g')"
    using o(1) t(1) by (simp add: shuffle_def Let_def pre_eq)
  moreover have "triplets ?c1 = triplets c" by (simp add: triplets_def)
  moreover have "\<forall>k. \<not> (pre \<le> int k \<and> int k < nc - 1) \<longrightarrow> rel_open c' ! k = rel_open c ! k"
    using o(4) t(2) by simp
  ultimately show ?thesis
    using o(2,3) t(2-10) unfolding pre_def [symmetric] by simp
qed

lemmas shuffle_eval =
  shuffle_def shuffle_open.simps shuffle_triplet.simps swap3_def swap_def rd_def wr_def
  draw_j_first unifrand_def RAND32M_def mwc256_zero_def Let_def

text \<open>
  Claim C3. On the changes of a window of \<open>nc\<close> bars (each array holds at least
  \<open>nc - 1\<close> changes), for every state of the generator and every \<^verbatim>\<open>preserve_OO\<close>, the
  shuffling step of \<^verbatim>\<open>do_permute\<close> ends without an error, and each of \<^verbatim>\<open>rel_open\<close>,
  \<^verbatim>\<open>rel_high\<close>, \<^verbatim>\<open>rel_low\<close> and \<^verbatim>\<open>rel_close\<close> holds the same multiset of values after it
  as before.
\<close>

theorem shuffle_keeps_multisets:
  assumes "nc - 1 \<le> int (length (rel_open c))" and "nc - 1 \<le> int (length (rel_high c))"
    and "nc - 1 \<le> int (length (rel_low c))" and "nc - 1 \<le> int (length (rel_close c))"
  shows "\<exists>c' g'. shuffle nc preserve_OO c g = Inr (c', g') \<and>
     mset (rel_open c') = mset (rel_open c) \<and>
     mset (rel_high c') = mset (rel_high c) \<and>
     mset (rel_low c') = mset (rel_low c) \<and>
     mset (rel_close c') = mset (rel_close c)"
  using shuffle_permutes [OF assms, of preserve_OO g] by blast

text \<open>Claim C3 on a window of 5 bars: the step reorders the four changes of each kind.\<close>

theorem shuffle_keeps_multisets_witness:
  "\<exists>c' g'.
     shuffle 5 1 \<lparr>rel_open = [1, 2, 3, 4], rel_high = [10, 20, 30, 40],
       rel_low = [-10, -20, -30, -40], rel_close = [5, 6, 7, 8]\<rparr> mwc256_zero = Inr (c', g') \<and>
     c' = \<lparr>rel_open = [1, 3, 4, 2], rel_high = [20, 30, 10, 40],
       rel_low = [-20, -30, -10, -40], rel_close = [6, 7, 5, 8]\<rparr> \<and>
     mset (rel_open c') = mset [1, 2, 3, 4] \<and> mset (rel_high c') = mset [10, 20, 30, 40] \<and>
     mset (rel_low c') = mset [-10, -20, -30, -40] \<and> mset (rel_close c') = mset [5, 6, 7, 8]"
proof -
  let ?c = "\<lparr>rel_open = [1, 2, 3, 4], rel_high = [10, 20, 30, 40],
       rel_low = [-10, -20, -30, -40], rel_close = [5, 6, 7, 8 :: real]\<rparr>"
  have h: "5 - 1 \<le> int (length (rel_open ?c))" "5 - 1 \<le> int (length (rel_high ?c))"
    "5 - 1 \<le> int (length (rel_low ?c))" "5 - 1 \<le> int (length (rel_close ?c))"
    by simp_all
  obtain c' g' where r: "shuffle 5 1 ?c mwc256_zero = Inr (c', g')"
    "mset (rel_open c') = mset (rel_open ?c)" "mset (rel_high c') = mset (rel_high ?c)"
    "mset (rel_low c') = mset (rel_low ?c)" "mset (rel_close c') = mset (rel_close ?c)"
    using shuffle_keeps_multisets [OF h, of 1 mwc256_zero] by blast
  have "map_sum id fst (shuffle 5 1 ?c mwc256_zero) =
      Inr \<lparr>rel_open = [1, 3, 4, 2], rel_high = [20, 30, 10, 40],
       rel_low = [-20, -30, -10, -40], rel_close = [6, 7, 5, 8]\<rparr>"
    by (simp add: shuffle_eval)
  then have "c' = \<lparr>rel_open = [1, 3, 4, 2], rel_high = [20, 30, 10, 40],
       rel_low = [-20, -30, -10, -40], rel_close = [6, 7, 5, 8]\<rparr>"
    using r(1) by simp
  then show ?thesis using r by (intro exI [of _ c'] exI [of _ g']) simp
qed

text \<open>
  Claim C8 as stated fails: the second loop starts from \<open>nc - 1 - preserve_OO\<close> too, so the
  triplet at the last index, \<open>nc - 2\<close>, is held fixed. On a window of 4 bars no state of
  the generator moves the triplet at index 2.
\<close>

theorem shuffle_holds_last_triplet:
  "\<not> (\<exists>g c' g'.
     shuffle 4 1 \<lparr>rel_open = [1, 2, 3], rel_high = [10, 20, 30],
       rel_low = [-10, -20, -30], rel_close = [5, 6, 7]\<rparr> g = Inr (c', g') \<and>
     (rel_high c' ! 2, rel_low c' ! 2, rel_close c' ! 2) \<noteq> (30, -30, 7))"
proof
  let ?c = "\<lparr>rel_open = [1, 2, 3], rel_high = [10, 20, 30],
       rel_low = [-10, -20, -30], rel_close = [5, 6, 7 :: real]\<rparr>"
  assume "\<exists>g c' g'. shuffle 4 1 ?c g = Inr (c', g') \<and>
     (rel_high c' ! 2, rel_low c' ! 2, rel_close c' ! 2) \<noteq> (30, -30, 7)"
  then obtain g c' g' where m: "shuffle 4 1 ?c g = Inr (c', g')"
    "(rel_high c' ! 2, rel_low c' ! 2, rel_close c' ! 2) \<noteq> (30, -30, 7)"
    by blast
  have h: "4 - 1 \<le> int (length (rel_open ?c))" "4 - 1 \<le> int (length (rel_high ?c))"
    "4 - 1 \<le> int (length (rel_low ?c))" "4 - 1 \<le> int (length (rel_close ?c))"
    by simp_all
  obtain d g'' where r: "shuffle 4 1 ?c g = Inr (d, g'')"
    "\<forall>k. \<not> int k < 4 - 1 - (if (1::int) \<noteq> 0 then 1 else 0) \<longrightarrow>
        rel_high d ! k = rel_high ?c ! k \<and> rel_low d ! k = rel_low ?c ! k \<and>
        rel_close d ! k = rel_close ?c ! k"
    using shuffle_permutes [OF h, of 1 g] by blast
  have "rel_high d ! 2 = rel_high ?c ! 2 \<and> rel_low d ! 2 = rel_low ?c ! 2 \<and>
        rel_close d ! 2 = rel_close ?c ! 2"
    using r(2) [rule_format, of 2] by simp
  moreover have "d = c'" using r(1) m(1) by simp
  ultimately show False using m(2) by simp
qed

text \<open>
  Claim C8, amended. When \<^verbatim>\<open>preserve_OO\<close> is set, the shuffling step on the changes of a
  window of \<open>nc\<close> bars leaves \<^verbatim>\<open>rel_open\<close> index 0 fixed and permutes \<^verbatim>\<open>rel_open\<close> only over
  the indices 1 to \<open>nc - 2\<close>; the triplets \<^verbatim>\<open>(rel_high, rel_low, rel_close)\<close> are permuted
  jointly, as whole triplets, only over the indices 0 to \<open>nc - 3\<close>: the triplet at the last
  index \<open>nc - 2\<close> is held fixed.
\<close>

theorem shuffle_preserve_OO_ranges:
  assumes "preserve_OO \<noteq> 0"
    and "nc - 1 \<le> int (length (rel_open c))" and "nc - 1 \<le> int (length (rel_high c))"
    and "nc - 1 \<le> int (length (rel_low c))" and "nc - 1 \<le> int (length (rel_close c))"
  shows "\<exists>c' g'. shuffle nc preserve_OO c g = Inr (c', g') \<and>
     rel_open c' ! 0 = rel_open c ! 0 \<and>
     mset (rel_open c') = mset (rel_open c) \<and>
     (\<forall>k. \<not> (1 \<le> int k \<and> int k \<le> nc - 2) \<longrightarrow> rel_open c' ! k = rel_open c ! k) \<and>
     mset (triplets c') = mset (triplets c) \<and>
     (\<forall>k. \<not> int k \<le> nc - 3 \<longrightarrow>
        rel_high c' ! k = rel_high c ! k \<and> rel_low c' ! k = rel_low c ! k \<and>
        rel_close c' ! k = rel_close c ! k) \<and>
     rel_high c' ! nat (nc - 2) = rel_high c ! nat (nc - 2) \<and>
     rel_low c' ! nat (nc - 2) = rel_low c ! nat (nc - 2) \<and>
     rel_close c' ! nat (nc - 2) = rel_close c ! nat (nc - 2)"
proof -
  obtain c' g' where r: "shuffle nc preserve_OO c g = Inr (c', g')"
    "mset (rel_open c') = mset (rel_open c)"
    "mset (triplets c') = mset (triplets c)"
    "\<forall>k. \<not> (1 \<le> int k \<and> int k < nc - 1) \<longrightarrow> rel_open c' ! k = rel_open c ! k"
    "\<forall>k. \<not> int k < nc - 1 - 1 \<longrightarrow>
        rel_high c' ! k = rel_high c ! k \<and> rel_low c' ! k = rel_low c ! k \<and>
        rel_close c' ! k = rel_close c ! k"
    using shuffle_permutes [OF assms(2-5), of preserve_OO g] assms(1) by auto
  have a: "rel_open c' ! k = rel_open c ! k" if "\<not> (1 \<le> int k \<and> int k \<le> nc - 2)" for k
  proof -
    have "\<not> (1 \<le> int k \<and> int k < nc - 1)" using that by linarith
    then show ?thesis using r(4) by blast
  qed
  have b: "rel_high c' ! k = rel_high c ! k \<and> rel_low c' ! k = rel_low c ! k \<and>
        rel_close c' ! k = rel_close c ! k" if "\<not> int k \<le> nc - 3" for k
  proof -
    have "\<not> int k < nc - 1 - 1" using that by linarith
    then show ?thesis using r(5) by blast
  qed
  have "\<not> int (nat (nc - 2)) \<le> nc - 3" by linarith
  from b [OF this] a [of 0] a b r(1-3) show ?thesis by simp
qed

text \<open>
  Claim C8, amended, on a window of 6 bars: \<^verbatim>\<open>rel_open\<close> index 0 and the triplet at index 4
  stay, the rest is permuted.
\<close>

theorem shuffle_preserve_OO_ranges_witness:
  "\<exists>c' g'.
     shuffle 6 1 \<lparr>rel_open = [1, 2, 3, 4, 5], rel_high = [10, 20, 30, 40, 50],
       rel_low = [-10, -20, -30, -40, -50], rel_close = [5, 6, 7, 8, 9]\<rparr> mwc256_zero =
       Inr (c', g') \<and>
     c' = \<lparr>rel_open = [1, 3, 4, 5, 2], rel_high = [20, 30, 40, 10, 50],
       rel_low = [-20, -30, -40, -10, -50], rel_close = [6, 7, 8, 5, 9]\<rparr> \<and>
     rel_open c' ! 0 = 1 \<and> mset (rel_open c') = mset [1, 2, 3, 4, 5] \<and>
     (rel_high c' ! 4, rel_low c' ! 4, rel_close c' ! 4) = (50, -50, 9)"
proof -
  let ?c = "\<lparr>rel_open = [1, 2, 3, 4, 5], rel_high = [10, 20, 30, 40, 50],
       rel_low = [-10, -20, -30, -40, -50], rel_close = [5, 6, 7, 8, 9 :: real]\<rparr>"
  have h: "(1::int) \<noteq> 0"
    "6 - 1 \<le> int (length (rel_open ?c))" "6 - 1 \<le> int (length (rel_high ?c))"
    "6 - 1 \<le> int (length (rel_low ?c))" "6 - 1 \<le> int (length (rel_close ?c))"
    by simp_all
  obtain c' g' where r: "shuffle 6 1 ?c mwc256_zero = Inr (c', g')"
    "rel_open c' ! 0 = rel_open ?c ! 0" "mset (rel_open c') = mset (rel_open ?c)"
    "rel_high c' ! nat (6 - 2) = rel_high ?c ! nat (6 - 2)"
    "rel_low c' ! nat (6 - 2) = rel_low ?c ! nat (6 - 2)"
    "rel_close c' ! nat (6 - 2) = rel_close ?c ! nat (6 - 2)"
    using shuffle_preserve_OO_ranges [OF h, of mwc256_zero] by blast
  have "map_sum id fst (shuffle 6 1 ?c mwc256_zero) =
      Inr \<lparr>rel_open = [1, 3, 4, 5, 2], rel_high = [20, 30, 40, 10, 50],
       rel_low = [-20, -30, -40, -10, -50], rel_close = [6, 7, 8, 5, 9]\<rparr>"
    by (simp add: shuffle_eval)
  then have "c' = \<lparr>rel_open = [1, 3, 4, 5, 2], rel_high = [20, 30, 40, 10, 50],
       rel_low = [-20, -30, -40, -10, -50], rel_close = [6, 7, 8, 5, 9]\<rparr>"
    using r(1) by simp
  then show ?thesis using r by (intro exI [of _ c'] exI [of _ g']) simp
qed

subsection \<open>Deriving the changes and rebuilding the prices\<close>

lemma prepare_case_in:
  assumes "1 \<le> icase" "icase < nc" "window_of nc p" "work_area_of nc c"
  shows "prepare_case icase p c = Inr
     \<lparr>rel_open = (rel_open c)[nat (icase - 1) :=
         fl (p_open p ! nat icase - p_close p ! nat (icase - 1))],
      rel_high = (rel_high c)[nat (icase - 1) := fl (p_high p ! nat icase - p_open p ! nat icase)],
      rel_low = (rel_low c)[nat (icase - 1) := fl (p_low p ! nat icase - p_open p ! nat icase)],
      rel_close = (rel_close c)[nat (icase - 1) :=
         fl (p_close p ! nat icase - p_open p ! nat icase)]\<rparr>"
  using assms by (simp add: prepare_case_def window_of_def work_area_of_def rd_in wr_in)

lemma prepare_loop_derives:
  assumes "window_of nc p"
  shows "1 \<le> icase \<Longrightarrow> work_area_of nc c \<Longrightarrow>
     \<exists>c'. prepare_loop icase nc p c = Inr c' \<and> work_area_of nc c' \<and>
       (\<forall>m. icase - 1 \<le> int m \<and> int m < nc - 1 \<longrightarrow> derived_at p c' m) \<and>
       (\<forall>m. \<not> (icase - 1 \<le> int m \<and> int m < nc - 1) \<longrightarrow> same_changes c' c m)"
proof (induction "nat (nc - icase)" arbitrary: icase c)
  case 0
  then have ge: "\<not> icase < nc" by simp
  then show ?case
    using "0.prems" by (auto simp: prepare_loop.simps [of icase] same_changes_def)
next
  case (Suc n)
  then have lt: "icase < nc" by simp
  let ?a = "nat (icase - 1)"
  define c1 where "c1 =
     \<lparr>rel_open = (rel_open c)[?a := fl (p_open p ! nat icase - p_close p ! ?a)],
      rel_high = (rel_high c)[?a := fl (p_high p ! nat icase - p_open p ! nat icase)],
      rel_low = (rel_low c)[?a := fl (p_low p ! nat icase - p_open p ! nat icase)],
      rel_close = (rel_close c)[?a := fl (p_close p ! nat icase - p_open p ! nat icase)]\<rparr>"
  have pc: "prepare_case icase p c = Inr c1"
    unfolding c1_def using Suc.prems lt assms by (intro prepare_case_in) simp_all
  have w1: "work_area_of nc c1" using Suc.prems(2) by (simp add: work_area_of_def c1_def)
  have a: "?a < length (rel_open c)" "?a < length (rel_high c)" "?a < length (rel_low c)"
    "?a < length (rel_close c)"
    using Suc.prems lt unfolding work_area_of_def by linarith+
  have d1: "derived_at p c1 ?a"
    using a Suc.prems(1) by (simp add: derived_at_def c1_def nat_diff_distrib)
  have s1: "same_changes c1 c m" if "m \<noteq> ?a" for m
    using that by (simp add: same_changes_def c1_def)
  have "n = nat (nc - (icase + 1))" using Suc.hyps(2) by simp
  then obtain c' where r: "prepare_loop (icase + 1) nc p c1 = Inr c'" "work_area_of nc c'"
      "\<forall>m. icase + 1 - 1 \<le> int m \<and> int m < nc - 1 \<longrightarrow> derived_at p c' m"
      "\<forall>m. \<not> (icase + 1 - 1 \<le> int m \<and> int m < nc - 1) \<longrightarrow> same_changes c' c1 m"
    using Suc.hyps(1) [of "icase + 1" c1] Suc.prems(1) w1 by auto
  have "prepare_loop icase nc p c = Inr c'"
    using lt pc r(1) by (simp add: prepare_loop.simps [of icase])
  moreover have "derived_at p c' m" if "icase - 1 \<le> int m \<and> int m < nc - 1" for m
  proof (cases "m = ?a")
    case True
    then have "same_changes c' c1 m" using r(4) Suc.prems(1) by simp
    then show ?thesis using d1 True by (simp add: same_changes_def derived_at_def)
  next
    case False
    then have "icase + 1 - 1 \<le> int m \<and> int m < nc - 1" using that by linarith
    then show ?thesis using r(3) by blast
  qed
  moreover have "same_changes c' c m" if "\<not> (icase - 1 \<le> int m \<and> int m < nc - 1)" for m
  proof -
    have "m \<noteq> ?a" using that lt Suc.prems(1) by linarith
    moreover have "\<not> (icase + 1 - 1 \<le> int m \<and> int m < nc - 1)" using that by linarith
    ultimately show ?thesis using r(4) s1 by (simp add: same_changes_def)
  qed
  ultimately show ?case using r(2) by blast
qed

lemma prepare_permute_derives:
  assumes "window_of nc p" "work_area_of nc w"
  shows "\<exists>c. prepare_permute nc p w = Inr c \<and> work_area_of nc c \<and>
     (\<forall>m. int m < nc - 1 \<longrightarrow> derived_at p c m)"
  using prepare_loop_derives [OF assms(1), of 1 w] assms(2)
  by (auto simp: prepare_permute_def)

lemma rebuild_case_in:
  assumes "1 \<le> icase" "icase < nc" "window_of nc p" "work_area_of nc c"
  shows "rebuild_case icase p c = Inr
     \<lparr>p_open = (p_open p)[nat icase :=
         fl (p_close p ! nat (icase - 1) + rel_open c ! nat (icase - 1))],
      p_high = (p_high p)[nat icase :=
         fl (fl (p_close p ! nat (icase - 1) + rel_open c ! nat (icase - 1)) +
             rel_high c ! nat (icase - 1))],
      p_low = (p_low p)[nat icase :=
         fl (fl (p_close p ! nat (icase - 1) + rel_open c ! nat (icase - 1)) +
             rel_low c ! nat (icase - 1))],
      p_close = (p_close p)[nat icase :=
         fl (fl (p_close p ! nat (icase - 1) + rel_open c ! nat (icase - 1)) +
             rel_close c ! nat (icase - 1))]\<rparr>"
proof -
  have "nat icase < length (p_open p)" using assms unfolding window_of_def by linarith
  then have "(p_open p)[nat icase := v] ! nat icase = v" for v by simp
  then show ?thesis
    using assms by (simp add: rebuild_case_def window_of_def work_area_of_def rd_def wr_def)
qed

lemma rebuild_loop_rebuilds:
  assumes "work_area_of nc c"
  shows "1 \<le> icase \<Longrightarrow> window_of nc p \<Longrightarrow>
     \<exists>p'. rebuild_loop icase nc p c = Inr p' \<and> window_of nc p' \<and>
       (\<forall>k. icase \<le> int k \<and> int k < nc \<longrightarrow> rebuilt_at p' c k) \<and>
       (\<forall>k. \<not> (icase \<le> int k \<and> int k < nc) \<longrightarrow> same_bar p' p k)"
proof (induction "nat (nc - icase)" arbitrary: icase p)
  case 0
  then have ge: "\<not> icase < nc" by simp
  then show ?case
    using "0.prems" by (auto simp: rebuild_loop.simps [of icase] same_bar_def)
next
  case (Suc n)
  then have lt: "icase < nc" by simp
  let ?a = "nat (icase - 1)" and ?i = "nat icase"
  let ?o = "fl (p_close p ! ?a + rel_open c ! ?a)"
  define p1 where "p1 =
     \<lparr>p_open = (p_open p)[?i := ?o], p_high = (p_high p)[?i := fl (?o + rel_high c ! ?a)],
      p_low = (p_low p)[?i := fl (?o + rel_low c ! ?a)],
      p_close = (p_close p)[?i := fl (?o + rel_close c ! ?a)]\<rparr>"
  have rc: "rebuild_case icase p c = Inr p1"
    unfolding p1_def using Suc.prems lt assms by (intro rebuild_case_in) simp_all
  have w1: "window_of nc p1" using Suc.prems(2) by (simp add: window_of_def p1_def)
  have i: "?i < length (p_open p)" "?i < length (p_high p)" "?i < length (p_low p)"
    "?i < length (p_close p)"
    using Suc.prems lt unfolding window_of_def by linarith+
  have ai: "?a \<noteq> ?i" "?i - 1 = ?a" using Suc.prems(1) by simp_all
  have b1: "p_open p1 ! ?i = fl (p_close p1 ! ?a + rel_open c ! ?a) \<and>
      p_high p1 ! ?i = fl (p_open p1 ! ?i + rel_high c ! ?a) \<and>
      p_low p1 ! ?i = fl (p_open p1 ! ?i + rel_low c ! ?a) \<and>
      p_close p1 ! ?i = fl (p_open p1 ! ?i + rel_close c ! ?a)"
    using i ai(1) by (simp add: p1_def)
  have s1: "same_bar p1 p k" if "k \<noteq> ?i" for k
    using that by (simp add: same_bar_def p1_def)
  have "n = nat (nc - (icase + 1))" using Suc.hyps(2) by simp
  then obtain p' where r: "rebuild_loop (icase + 1) nc p1 c = Inr p'" "window_of nc p'"
      "\<forall>k. icase + 1 \<le> int k \<and> int k < nc \<longrightarrow> rebuilt_at p' c k"
      "\<forall>k. \<not> (icase + 1 \<le> int k \<and> int k < nc) \<longrightarrow> same_bar p' p1 k"
    using Suc.hyps(1) [of "icase + 1" p1] Suc.prems(1) w1 by auto
  have "rebuild_loop icase nc p c = Inr p'"
    using lt rc r(1) by (simp add: rebuild_loop.simps [of icase])
  moreover have "rebuilt_at p' c k" if "icase \<le> int k \<and> int k < nc" for k
  proof (cases "k = ?i")
    case True
    have "same_bar p' p1 ?i" "same_bar p' p1 ?a" using r(4) Suc.prems(1) by simp_all
    then show ?thesis using b1 True ai(2) by (simp add: same_bar_def rebuilt_at_def)
  next
    case False
    then have "icase + 1 \<le> int k \<and> int k < nc" using that by linarith
    then show ?thesis using r(3) by blast
  qed
  moreover have "same_bar p' p k" if "\<not> (icase \<le> int k \<and> int k < nc)" for k
  proof -
    have "k \<noteq> ?i" using that lt Suc.prems(1) by linarith
    moreover have "\<not> (icase + 1 \<le> int k \<and> int k < nc)" using that by linarith
    ultimately show ?thesis using r(4) s1 by (simp add: same_bar_def)
  qed
  ultimately show ?case using r(2) by blast
qed

subsection \<open>One call of \<^verbatim>\<open>do_permute\<close>, and many\<close>

lemma mset_take_fixed_tail:
  assumes "length ys = length xs" and "mset ys = mset xs"
    and "\<forall>k. n \<le> k \<and> k < length xs \<longrightarrow> ys ! k = xs ! k"
  shows "mset (take n ys) = mset (take n xs)"
proof -
  have "drop n ys = drop n xs"
    using assms(1,3) by (intro nth_equalityI) simp_all
  moreover have "mset (take n ys) + mset (drop n ys) = mset ys"
    "mset (take n xs) + mset (drop n xs) = mset xs"
    by (simp_all flip: mset_append)
  ultimately show ?thesis using assms(2) by (metis add_right_cancel)
qed

lemma do_permute_invariant:
  assumes "window_of nc p" "work_area_of nc c"
  shows "\<exists>p' c' g'. do_permute nc preserve_OO p c g = Inr (p', c', g') \<and>
     window_of nc p' \<and> work_area_of nc c' \<and> same_bar p' p 0 \<and>
     (\<forall>k. 1 \<le> int k \<and> int k < nc \<longrightarrow> rebuilt_at p' c' k) \<and>
     mset (take (nat (nc - 1)) (rel_open c')) = mset (take (nat (nc - 1)) (rel_open c)) \<and>
     mset (take (nat (nc - 1)) (rel_close c')) = mset (take (nat (nc - 1)) (rel_close c)) \<and>
     mset (take (nat (nc - 1)) (triplets c')) = mset (take (nat (nc - 1)) (triplets c))"
proof -
  have w: "nc - 1 \<le> int (length (rel_open c))" "nc - 1 \<le> int (length (rel_high c))"
    "nc - 1 \<le> int (length (rel_low c))" "nc - 1 \<le> int (length (rel_close c))"
    using assms(2) by (simp_all add: work_area_of_def)
  obtain c' g' where s: "shuffle nc preserve_OO c g = Inr (c', g')"
     "length (rel_open c') = length (rel_open c)"
     "length (rel_high c') = length (rel_high c)"
     "length (rel_low c') = length (rel_low c)"
     "length (rel_close c') = length (rel_close c)"
     "mset (rel_open c') = mset (rel_open c)"
     "mset (rel_close c') = mset (rel_close c)"
     "mset (triplets c') = mset (triplets c)"
     "\<forall>k. \<not> ((if preserve_OO \<noteq> 0 then 1 else 0) \<le> int k \<and> int k < nc - 1) \<longrightarrow>
        rel_open c' ! k = rel_open c ! k"
     "\<forall>k. \<not> int k < nc - 1 - (if preserve_OO \<noteq> 0 then 1 else 0) \<longrightarrow>
        rel_high c' ! k = rel_high c ! k \<and> rel_low c' ! k = rel_low c ! k \<and>
        rel_close c' ! k = rel_close c ! k"
    using shuffle_permutes [OF w, of preserve_OO g] by blast
  have w': "work_area_of nc c'" using assms(2) s(2-5) by (simp add: work_area_of_def)
  obtain p' where r: "rebuild_loop 1 nc p c' = Inr p'" "window_of nc p'"
      "\<forall>k. 1 \<le> int k \<and> int k < nc \<longrightarrow> rebuilt_at p' c' k"
      "\<forall>k. \<not> (1 \<le> int k \<and> int k < nc) \<longrightarrow> same_bar p' p k"
    using rebuild_loop_rebuilds [OF w', of 1 p] assms(1) by auto
  have tail: "rel_open c' ! k = rel_open c ! k \<and> rel_high c' ! k = rel_high c ! k \<and>
      rel_low c' ! k = rel_low c ! k \<and> rel_close c' ! k = rel_close c ! k"
    if "nat (nc - 1) \<le> k" for k
  proof -
    have "\<not> ((if preserve_OO \<noteq> 0 then 1 else 0) \<le> int k \<and> int k < nc - 1)"
      using that by linarith
    moreover have "\<not> int k < nc - 1 - (if preserve_OO \<noteq> 0 then 1 else 0)"
      using that by (simp split: if_splits) linarith+
    ultimately show ?thesis using s(9,10) by blast
  qed
  have m1: "mset (take (nat (nc - 1)) (rel_open c')) = mset (take (nat (nc - 1)) (rel_open c))"
    using s(2,6) tail by (intro mset_take_fixed_tail) simp_all
  have m2: "mset (take (nat (nc - 1)) (rel_close c')) = mset (take (nat (nc - 1)) (rel_close c))"
    using s(5,7) tail by (intro mset_take_fixed_tail) simp_all
  have m3: "mset (take (nat (nc - 1)) (triplets c')) = mset (take (nat (nc - 1)) (triplets c))"
  proof (rule mset_take_fixed_tail)
    show "length (triplets c') = length (triplets c)" using s(3-5) by (simp add: triplets_def)
    show "mset (triplets c') = mset (triplets c)" by (rule s(8))
    show "\<forall>k. nat (nc - 1) \<le> k \<and> k < length (triplets c) \<longrightarrow>
        triplets c' ! k = triplets c ! k"
      using tail s(3-5) by (simp add: triplets_def)
  qed
  have "do_permute nc preserve_OO p c g = Inr (p', c', g')"
    using s(1) r(1) by (simp add: do_permute_def)
  moreover have "same_bar p' p 0" using r(4) by simp
  ultimately show ?thesis using r(2,3) w' m1 m2 m3 by blast
qed

lemma permute_cycles_invariant:
  "window_of nc p \<Longrightarrow> work_area_of nc c \<Longrightarrow>
   \<exists>p' c' g'. permute_cycles n nc preserve_OO p c g = Inr (p', c', g') \<and>
     window_of nc p' \<and> work_area_of nc c' \<and> same_bar p' p 0 \<and>
     (0 < n \<longrightarrow> (\<forall>k. 1 \<le> int k \<and> int k < nc \<longrightarrow> rebuilt_at p' c' k)) \<and>
     mset (take (nat (nc - 1)) (rel_open c')) = mset (take (nat (nc - 1)) (rel_open c)) \<and>
     mset (take (nat (nc - 1)) (rel_close c')) = mset (take (nat (nc - 1)) (rel_close c)) \<and>
     mset (take (nat (nc - 1)) (triplets c')) = mset (take (nat (nc - 1)) (triplets c))"
proof (induction n arbitrary: p c g)
  case 0
  then show ?case by (simp add: same_bar_def)
next
  case (Suc n)
  obtain p1 c1 g1 where d: "do_permute nc preserve_OO p c g = Inr (p1, c1, g1)"
     "window_of nc p1" "work_area_of nc c1" "same_bar p1 p 0"
     "\<forall>k. 1 \<le> int k \<and> int k < nc \<longrightarrow> rebuilt_at p1 c1 k"
     "mset (take (nat (nc - 1)) (rel_open c1)) = mset (take (nat (nc - 1)) (rel_open c))"
     "mset (take (nat (nc - 1)) (rel_close c1)) = mset (take (nat (nc - 1)) (rel_close c))"
     "mset (take (nat (nc - 1)) (triplets c1)) = mset (take (nat (nc - 1)) (triplets c))"
    using do_permute_invariant [OF Suc.prems, of preserve_OO g] by blast
  obtain p' c' g' where r: "permute_cycles n nc preserve_OO p1 c1 g1 = Inr (p', c', g')"
     "window_of nc p'" "work_area_of nc c'" "same_bar p' p1 0"
     "0 < n \<longrightarrow> (\<forall>k. 1 \<le> int k \<and> int k < nc \<longrightarrow> rebuilt_at p' c' k)"
     "mset (take (nat (nc - 1)) (rel_open c')) = mset (take (nat (nc - 1)) (rel_open c1))"
     "mset (take (nat (nc - 1)) (rel_close c')) = mset (take (nat (nc - 1)) (rel_close c1))"
     "mset (take (nat (nc - 1)) (triplets c')) = mset (take (nat (nc - 1)) (triplets c1))"
    using Suc.IH [OF d(2,3), of g1] by blast
  have "permute_cycles (Suc n) nc preserve_OO p c g = Inr (p', c', g')"
    using d(1) r(1) by simp
  moreover have "same_bar p' p 0" using r(4) d(4) by (simp add: same_bar_def)
  moreover have "\<forall>k. 1 \<le> int k \<and> int k < nc \<longrightarrow> rebuilt_at p' c' k"
  proof (cases n)
    case 0
    then have "p' = p1" "c' = c1" using r(1) by simp_all
    then show ?thesis using d(5) by simp
  next
    case (Suc m)
    then show ?thesis using r(5) by simp
  qed
  ultimately show ?case using r(2,3,6,7,8) d(6,7,8) by simp
qed

subsection \<open>The ends of the window\<close>

text \<open>
  The first bar is never written: after any number of calls of \<^verbatim>\<open>do_permute\<close> its four
  prices are what they were.
\<close>

lemma permute_cycles_first_bar:
  assumes "window_of nc p" and "work_area_of nc c"
  shows "\<exists>p' c' g'. permute_cycles n nc preserve_OO p c g = Inr (p', c', g') \<and>
     p_open p' ! 0 = p_open p ! 0 \<and> p_high p' ! 0 = p_high p ! 0 \<and>
     p_low p' ! 0 = p_low p ! 0 \<and> p_close p' ! 0 = p_close p ! 0"
  using permute_cycles_invariant [OF assms, of n preserve_OO g] unfolding same_bar_def by blast

lemmas permute_eval =
  prepare_permute_def prepare_loop.simps prepare_case_def do_permute_def
  rebuild_loop.simps rebuild_case_def shuffle_eval work_area_def

text \<open>
  Claim C2, at a failing input. The last close is not kept: every call of \<^verbatim>\<open>do_permute\<close>
  computes it anew, as the sum of the open before it and a change that
  \<^verbatim>\<open>prepare_permute\<close> computed as a difference, and both operations round. In the window
  of the two bars \<open>bars2\<close> the last close is the \<^verbatim>\<open>double\<close> nearest to 0.01,
  \<open>5764607523034235 / 2^59\<close>. \<^verbatim>\<open>prepare_permute\<close> stores the difference
  \<^verbatim>\<open>0.01 - 0.03\<close>, rounded; one call of \<^verbatim>\<open>do_permute\<close> (which shuffles nothing in a
  window of two bars, whatever the state of the generator) adds it to the open 0.03 and
  rounds again: the last close is now \<open>5764607523034236 / 2^59\<close>, the next \<^verbatim>\<open>double\<close>
  above. The open and the close of the first bar are unchanged.
\<close>

theorem do_permute_moves_last_close:
  "\<exists>c. prepare_permute 2 bars2 (work_area [0]) = Inr c \<and>
     (\<forall>g. \<exists>p' c' g'. do_permute 2 1 bars2 c g = Inr (p', c', g') \<and>
        p_open p' ! 0 = p_open bars2 ! 0 \<and> p_close p' ! 0 = p_close bars2 ! 0 \<and>
        p_close bars2 ! 1 = 5764607523034235 / 2 ^ 59 \<and>
        p_close p' ! 1 = 5764607523034236 / 2 ^ 59)"
  by (simp add: permute_eval bars2_def fl_def ilog2_def rne_def compute_bitlen)

subsection \<open>The bars stay consistent\<close>

lemma derived_triplets_ok:
  assumes "work_area_of nc c" and "\<forall>m. int m < nc - 1 \<longrightarrow> derived_at p c m"
    and "\<forall>k. int k < nc \<longrightarrow> bar_ok p k"
  shows "\<forall>t\<in>set (take (nat (nc - 1)) (triplets c)). triplet_ok t"
proof
  fix t
  assume "t \<in> set (take (nat (nc - 1)) (triplets c))"
  then obtain m where m: "m < length (take (nat (nc - 1)) (triplets c))"
      "t = take (nat (nc - 1)) (triplets c) ! m"
    by (auto simp: in_set_conv_nth)
  then have lt: "m < nat (nc - 1)" "m < length (rel_high c)" "m < length (rel_low c)"
    "m < length (rel_close c)"
    by (simp_all add: triplets_def)
  then have t: "t = (rel_high c ! m, rel_low c ! m, rel_close c ! m)"
    using m(2) by (simp add: triplets_def)
  have d: "derived_at p c m" and b: "bar_ok p (m + 1)" using assms(2,3) lt(1) by simp_all
  let ?o = "p_open p ! (m + 1)"
  have "p_low p ! (m + 1) - ?o \<le> 0" "0 \<le> p_high p ! (m + 1) - ?o"
    "p_low p ! (m + 1) - ?o \<le> p_close p ! (m + 1) - ?o"
    "p_close p ! (m + 1) - ?o \<le> p_high p ! (m + 1) - ?o"
    using b by (simp_all add: bar_ok_def not_less)
  then have "fl (p_low p ! (m + 1) - ?o) \<le> 0" "0 \<le> fl (p_high p ! (m + 1) - ?o)"
    "fl (p_low p ! (m + 1) - ?o) \<le> fl (p_close p ! (m + 1) - ?o)"
    "fl (p_close p ! (m + 1) - ?o) \<le> fl (p_high p ! (m + 1) - ?o)"
    by (simp_all only: fl_nonpos fl_nonneg fl_mono)
  then show "triplet_ok t"
    unfolding t using d by (simp add: triplet_ok_def derived_at_def)
qed

text \<open>
  A triplet that is in order, added to an open that is a \<^verbatim>\<open>double\<close>, gives a bar that is
  in order: rounding is monotone and keeps the open.
\<close>

lemma rebuilt_bar_ok:
  assumes "rebuilt_at p c (Suc m)"
    and "triplet_ok (rel_high c ! m, rel_low c ! m, rel_close c ! m)"
  shows "bar_ok p (Suc m)"
proof -
  define op where "op = p_open p ! Suc m"
  have r: "op = fl (p_close p ! m + rel_open c ! m)"
    "p_high p ! Suc m = fl (op + rel_high c ! m)"
    "p_low p ! Suc m = fl (op + rel_low c ! m)"
    "p_close p ! Suc m = fl (op + rel_close c ! m)"
    using assms(1) by (simp_all add: rebuilt_at_def op_def)
  have t: "rel_low c ! m \<le> 0" "0 \<le> rel_high c ! m" "rel_low c ! m \<le> rel_close c ! m"
    "rel_close c ! m \<le> rel_high c ! m"
    using assms(2) by (simp_all add: triplet_ok_def)
  have keep: "fl op = op" unfolding r(1) by (rule fl_idem)
  have "fl (op + rel_low c ! m) \<le> fl op" "fl op \<le> fl (op + rel_high c ! m)"
    "fl (op + rel_low c ! m) \<le> fl (op + rel_close c ! m)"
    "fl (op + rel_close c ! m) \<le> fl (op + rel_high c ! m)"
    using t by (intro fl_mono, simp)+
  then show ?thesis
    unfolding bar_ok_def op_def [symmetric] r(2,3,4) keep by (simp add: not_less)
qed

text \<open>
  Claim C10. Take a window of \<open>nc\<close> bars, each with its low not above its open and close
  and its high not below them, and the changes that \<^verbatim>\<open>prepare_permute\<close> derives from it.
  After any number \<open>n\<close> of calls of \<^verbatim>\<open>do_permute\<close>, every bar of the window is again such
  a bar.
\<close>

theorem permute_cycles_bars_ok:
  assumes "window_of nc p" and "work_area_of nc w"
    and "prepare_permute nc p w = Inr c"
    and "\<forall>k. int k < nc \<longrightarrow> bar_ok p k"
  shows "\<exists>p' c' g'. permute_cycles n nc preserve_OO p c g = Inr (p', c', g') \<and>
     (\<forall>k. int k < nc \<longrightarrow> bar_ok p' k)"
proof -
  have c: "work_area_of nc c" "\<forall>m. int m < nc - 1 \<longrightarrow> derived_at p c m"
    using prepare_permute_derives [OF assms(1,2)] assms(3) by auto
  obtain p' c' g' where r: "permute_cycles n nc preserve_OO p c g = Inr (p', c', g')"
     "work_area_of nc c'" "same_bar p' p 0"
     "0 < n \<longrightarrow> (\<forall>k. 1 \<le> int k \<and> int k < nc \<longrightarrow> rebuilt_at p' c' k)"
     "mset (take (nat (nc - 1)) (triplets c')) = mset (take (nat (nc - 1)) (triplets c))"
    using permute_cycles_invariant [OF assms(1) c(1), of n preserve_OO g] by blast
  have "bar_ok p' k" if k: "int k < nc" for k
  proof (cases n)
    case 0
    then have "p' = p" using r(1) by simp
    then show ?thesis using assms(4) k by simp
  next
    case (Suc n')
    show ?thesis
    proof (cases k)
      case 0
      then have "bar_ok p 0" using assms(4) k by simp
      then show ?thesis using r(3) 0 by (simp add: bar_ok_def same_bar_def)
    next
      case (Suc m)
      then have rb: "rebuilt_at p' c' (Suc m)" using r(4) k \<open>n = Suc n'\<close> by simp
      have lt: "m < nat (nc - 1)" using k Suc by linarith
      then have len: "m < length (rel_high c')" "m < length (rel_low c')"
        "m < length (rel_close c')"
        using r(2) unfolding work_area_of_def by linarith+
      then have "take (nat (nc - 1)) (triplets c') ! m =
          (rel_high c' ! m, rel_low c' ! m, rel_close c' ! m)"
        using lt by (simp add: triplets_def)
      moreover have "m < length (take (nat (nc - 1)) (triplets c'))"
        using lt len by (simp add: triplets_def)
      ultimately have "(rel_high c' ! m, rel_low c' ! m, rel_close c' ! m) \<in>
          set (take (nat (nc - 1)) (triplets c'))"
        by (metis nth_mem)
      also have "set (take (nat (nc - 1)) (triplets c')) = set (take (nat (nc - 1)) (triplets c))"
        using r(5) by (rule mset_eq_setD)
      finally have "triplet_ok (rel_high c' ! m, rel_low c' ! m, rel_close c' ! m)"
        using derived_triplets_ok [OF c assms(4)] by blast
      then show ?thesis
        using rebuilt_bar_ok [OF rb] Suc by simp
    qed
  qed
  then show ?thesis using r(1) by blast
qed

text \<open>Claim C10 on the window of 4 bars, after one call: the four new bars.\<close>

theorem permute_cycles_bars_ok_witness:
  "\<exists>c p' c' g'. prepare_permute 4 bars4 (work_area [0, 0, 0]) = Inr c \<and>
     permute_cycles 1 4 1 bars4 c mwc256_zero = Inr (p', c', g') \<and>
     p' = \<lparr>p_open = [100, 102, 106, 105], p_high = [103, 107, 108, 107],
           p_low = [99, 101, 104, 102], p_close = [101, 105, 107, 103]\<rparr> \<and>
     bar_ok p' 0 \<and> bar_ok p' 1 \<and> bar_ok p' 2 \<and> bar_ok p' 3"
proof -
  let ?c = "\<lparr>rel_open = [1, - 2, 1], rel_high = [2, 5, 2],
        rel_low = [- 2, - 1, - 3], rel_close = [1, 3, - 2 :: real]\<rparr>"
  have pc: "prepare_permute 4 bars4 (work_area [0, 0, 0]) = Inr ?c"
    by (simp add: permute_eval bars4_def)
  have "bar_ok bars4 k" if "int k < 4" for k
  proof -
    have "k = 0 \<or> k = 1 \<or> k = 2 \<or> k = 3" using that by linarith
    then show ?thesis by (auto simp: bar_ok_def bars4_def)
  qed
  then have h: "window_of 4 bars4" "work_area_of 4 (work_area [0, 0, 0])"
    "\<forall>k. int k < 4 \<longrightarrow> bar_ok bars4 k"
    by (simp_all add: window_of_def work_area_of_def bars4_def work_area_def)
  obtain p' c' g' where r: "permute_cycles 1 4 1 bars4 ?c mwc256_zero = Inr (p', c', g')"
    "\<forall>k. int k < 4 \<longrightarrow> bar_ok p' k"
    using permute_cycles_bars_ok [OF h(1,2) pc h(3), of 1 1 mwc256_zero] by blast
  have "map_sum id fst (permute_cycles 1 4 1 bars4 ?c mwc256_zero) =
      Inr \<lparr>p_open = [100, 102, 106, 105], p_high = [103, 107, 108, 107],
           p_low = [99, 101, 104, 102], p_close = [101, 105, 107, 103]\<rparr>"
    by (simp add: permute_eval bars4_def)
  then have "p' = \<lparr>p_open = [100, 102, 106, 105], p_high = [103, 107, 108, 107],
           p_low = [99, 101, 104, 102], p_close = [101, 105, 107, 103]\<rparr>"
    using r(1) by simp
  moreover have "bar_ok p' 0" "bar_ok p' 1" "bar_ok p' 2" "bar_ok p' 3" using r(2) by simp_all
  ultimately show ?thesis
    using pc r(1) by (intro exI [of _ ?c] exI [of _ p'] exI [of _ c'] exI [of _ g']) simp
qed

section \<open>Properties of the permutation test\<close>

declare mcpt_loop.simps [simp del]

lemma opt_params_total:
  assumes "1 \<le> lookback" "ncases \<le> int (length open')" "ncases \<le> int (length close)"
  shows "\<exists>r cells'. opt_params ncases lookback open' close cells = Inr (r, cells')"
proof -
  obtain st where "opt_params ncases lookback open' close cells = Inr st"
    using opt_params_record [of lookback ncases open' close
        "\<lambda>p. spec_cumulative_return ncases lookback open' close
                (spec_rise (fst p)) (spec_drop (snd p))"
        "\<lambda>p. spec_long_count ncases lookback close (spec_rise (fst p)) (spec_drop (snd p))"
        cells]
      trial_loop_spec [OF assms]
    by auto
  then show ?thesis by (cases st) simp
qed

lemma window_in:
  assumes "0 \<le> lookback" "lookback \<le> nprices" "window_of nprices p"
  shows "\<exists>w. window lookback p = Inr w \<and> window_of (nprices - lookback) w"
  using assms by (auto simp: window_def window_of_def)

lemma unwindow_fits:
  assumes "0 \<le> lookback" "window_of nprices p" "window_of (nprices - lookback) w"
  shows "window_of nprices (unwindow lookback p w)"
  using assms by (auto simp: unwindow_def window_of_def min_def)

lemma mcpt_rep_first:
  assumes "1 \<le> lookback" "ready nprices lookback v"
  shows "\<exists>v' l. mcpt_rep 0 nprices lookback tpr v = Inr v' \<and> ready nprices lookback v' \<and>
     v_prices v' = v_prices v \<and> v_changes v' = v_changes v \<and> v_rng v' = v_rng v \<and>
     printed v' = printed v @ [l] \<and> l_irep l = 0 \<and> original v' = l_opt_return l \<and>
     mcpt_count v' = 1 \<and> mean_training_bias v' = 0"
proof -
  have "nprices \<le> int (length (p_open (v_prices v)))"
    "nprices \<le> int (length (p_close (v_prices v)))"
    using assms(2) by (simp_all add: ready_def window_of_def)
  then obtain r cells' where
    "opt_params nprices lookback (p_open (v_prices v)) (p_close (v_prices v)) (v_cells v) =
       Inr (r, cells')"
    using opt_params_total [OF assms(1)] by blast
  then show ?thesis
    using assms(2) by (cases cells') (simp add: mcpt_rep_def Let_def ready_def)
qed

lemma mcpt_rep_trial:
  assumes "1 \<le> lookback" "lookback \<le> nprices" "ready nprices lookback v" "irep \<noteq> 0"
  shows "\<exists>v' l. mcpt_rep irep nprices lookback tpr v = Inr v' \<and> ready nprices lookback v' \<and>
     printed v' = printed v @ [l] \<and> l_irep l = irep \<and> original v' = original v \<and>
     mcpt_count v' = mcpt_count v + (if l_opt_return l \<ge> original v then 1 else 0)"
proof -
  have lb: "0 \<le> lookback" using assms(1) by simp
  have rv: "window_of nprices (v_prices v)" "work_area_of (nprices - lookback) (v_changes v)"
    using assms(3) by (simp_all add: ready_def)
  obtain w where w: "window lookback (v_prices v) = Inr w" "window_of (nprices - lookback) w"
    using window_in [OF lb assms(2) rv(1)] by blast
  obtain w' c' g' where d:
    "do_permute (nprices - lookback) 1 w (v_changes v) (v_rng v) = Inr (w', c', g')"
    "window_of (nprices - lookback) w'" "work_area_of (nprices - lookback) c'"
    using do_permute_invariant [OF w(2) rv(2), of 1 "v_rng v"] by blast
  define v1 where "v1 = v\<lparr>v_prices := unwindow lookback (v_prices v) w', v_changes := c',
      v_rng := g'\<rparr>"
  have r1: "window_of nprices (v_prices v1)" "work_area_of (nprices - lookback) (v_changes v1)"
    using unwindow_fits [OF lb rv(1) d(2)] d(3) by (simp_all add: v1_def)
  then have "nprices \<le> int (length (p_open (v_prices v1)))"
    "nprices \<le> int (length (p_close (v_prices v1)))"
    by (simp_all add: window_of_def)
  then obtain r cells' where o:
    "opt_params nprices lookback (p_open (v_prices v1)) (p_close (v_prices v1)) (v_cells v1) =
       Inr (r, cells')"
    using opt_params_total [OF assms(1)] by blast
  have "bind_err (window lookback (v_prices v)) (\<lambda>w.
          bind_err (do_permute (nprices - lookback) 1 w (v_changes v) (v_rng v)) (\<lambda>(w', c', g').
            Inr (v\<lparr>v_prices := unwindow lookback (v_prices v) w', v_changes := c',
                   v_rng := g'\<rparr>))) = Inr v1"
    using w(1) d(1) by (simp add: v1_def)
  then show ?thesis
    using assms(4) o r1
    by (cases cells') (simp add: mcpt_rep_def Let_def ready_def v1_def)
qed

lemma mcpt_loop_trials:
  assumes "1 \<le> lookback" "lookback \<le> nprices"
  shows "1 \<le> irep \<Longrightarrow> ready nprices lookback v \<Longrightarrow>
     \<exists>v' new. mcpt_loop irep nreps nprices lookback tpr v = Inr v' \<and>
       ready nprices lookback v' \<and> original v' = original v \<and>
       printed v' = printed v @ new \<and> map l_irep new = [irep..nreps - 1] \<and>
       mcpt_count v' =
         mcpt_count v + int (length (filter (\<lambda>l. l_opt_return l \<ge> original v) new)) \<and>
       (\<not> irep < nreps \<longrightarrow> v' = v)"
proof (induction "nat (nreps - irep)" arbitrary: irep v)
  case 0
  then have "\<not> irep < nreps" by simp
  then show ?case using "0.prems" by (simp add: mcpt_loop.simps [of irep])
next
  case (Suc n)
  then have lt: "irep < nreps" by simp
  have ne: "irep \<noteq> 0" using Suc.prems(1) by simp
  obtain v1 l where s: "mcpt_rep irep nprices lookback tpr v = Inr v1"
      "ready nprices lookback v1" "printed v1 = printed v @ [l]" "l_irep l = irep"
      "original v1 = original v"
      "mcpt_count v1 = mcpt_count v + (if l_opt_return l \<ge> original v then 1 else 0)"
    using mcpt_rep_trial [OF assms Suc.prems(2) ne, of tpr] by blast
  have "n = nat (nreps - (irep + 1))" using Suc.hyps(2) by simp
  then obtain v' new where r:
      "mcpt_loop (irep + 1) nreps nprices lookback tpr v1 = Inr v'"
      "ready nprices lookback v'" "original v' = original v1"
      "printed v' = printed v1 @ new" "map l_irep new = [irep + 1..nreps - 1]"
      "mcpt_count v' =
         mcpt_count v1 + int (length (filter (\<lambda>l. l_opt_return l \<ge> original v1) new))"
    using Suc.hyps(1) [of "irep + 1" v1] Suc.prems(1) s(2) by auto
  have "mcpt_loop irep nreps nprices lookback tpr v = Inr v'"
    using lt s(1) r(1) by (simp add: mcpt_loop.simps [of irep])
  moreover have "printed v' = printed v @ (l # new)" using r(4) s(3) by simp
  moreover have "map l_irep (l # new) = [irep..nreps - 1]"
    using lt s(4) r(5) by (simp add: upto_rec1 [of irep "nreps - 1"])
  moreover have "mcpt_count v' =
      mcpt_count v + int (length (filter (\<lambda>l. l_opt_return l \<ge> original v) (l # new)))"
    using r(6) s(5,6) by simp
  ultimately show ?case using r(2,3) s(5) lt by (intro exI [of _ v'] exI [of _ "l # new"]) simp
qed

lemma mcpt_report_in:
  assumes "window_of nprices (v_prices v)" "0 \<le> lookback" "lookback + 1 < nprices"
  shows "\<exists>s. mcpt_report nreps nprices lookback v = Inr s \<and>
     s_nreps s = nreps \<and> s_original s = original v \<and>
     s_p_value s = fdiv (real_of_int (mcpt_count v)) (real_of_int nreps) \<and>
     s_training_bias s = fdiv (mean_training_bias v) (real_of_int (nreps - 1)) \<and>
     s_unbiased_return s = map_option (\<lambda>m. original v - m) (s_training_bias s) \<and>
     s_skill s = map_option (\<lambda>x. x - original_trend_component v) (s_unbiased_return s)"
proof -
  have "nprices \<le> int (length (p_open (v_prices v)))"
    using assms(1) by (simp add: window_of_def)
  then have "rd (p_open (v_prices v)) (nprices - 1) =
        Inr (p_open (v_prices v) ! nat (nprices - 1))"
    "rd (p_open (v_prices v)) (lookback + 1) = Inr (p_open (v_prices v) ! nat (lookback + 1))"
    using assms(2,3) by (simp_all add: rd_in)
  then show ?thesis by (simp add: mcpt_report_def Let_def)
qed

text \<open>
  A run on a series that is long enough for the lookback, with a lookback of at least 1
  and at least one replication, ends with a report. \<open>l0\<close> is the line printed for the
  baseline, \<open>new\<close> are the lines of the permuted trials.
\<close>

lemma mcpt_runs:
  assumes "1 \<le> nreps" and "1 \<le> lookback"
    and "10 \<le> int (length (p_open p)) - lookback"
    and "window_of (int (length (p_open p))) p"
  shows "\<exists>s v l0 new. mcpt lookback nreps p g u = Inr (s, v) \<and>
     printed v = l0 # new \<and> map l_irep (l0 # new) = [0..nreps - 1] \<and>
     original v = l_opt_return l0 \<and>
     mcpt_count v =
       1 + int (length (filter (\<lambda>l. l_opt_return l \<ge> l_opt_return l0) new)) \<and>
     s_original s = original v \<and>
     s_p_value s = fdiv (real_of_int (mcpt_count v)) (real_of_int nreps) \<and>
     s_training_bias s = fdiv (mean_training_bias v) (real_of_int (nreps - 1)) \<and>
     s_unbiased_return s = map_option (\<lambda>m. original v - m) (s_training_bias s) \<and>
     s_skill s = map_option (\<lambda>x. x - original_trend_component v) (s_unbiased_return s) \<and>
     (nreps = 1 \<longrightarrow> v_prices v = p \<and> v_rng v = g \<and> mean_training_bias v = 0)"
proof -
  define nprices where "nprices = int (length (p_open p))"
  have np: "\<not> nprices - lookback < 10" "lookback \<le> nprices" "0 \<le> lookback"
    "lookback + 1 < nprices" "0 \<le> nprices - 1"
    using assms(2,3) unfolding nprices_def by linarith+
  have wp: "window_of nprices p" using assms(4) by (simp add: nprices_def)
  have rd1: "rd (p_open p) (nprices - 1) = Inr (p_open p ! nat (nprices - 1))"
    "rd (p_open p) (lookback + 1) = Inr (p_open p ! nat (lookback + 1))"
    using np by (simp_all add: rd_in nprices_def)
  define tpr where "tpr = (p_open p ! nat (nprices - 1) - p_open p ! nat (lookback + 1)) /
      real_of_int (nprices - lookback - 2)"
  define c0 where "c0 = \<lparr>rel_open = replicate (nat nprices) 0,
      rel_high = replicate (nat nprices) 0, rel_low = replicate (nat nprices) 0,
      rel_close = replicate (nat nprices) (0::real)\<rparr>"
  obtain w where w: "window lookback p = Inr w" "window_of (nprices - lookback) w"
    using window_in [OF np(3,2) wp] by blast
  have "work_area_of (nprices - lookback) c0"
    using np by (simp add: work_area_of_def c0_def)
  then obtain c where c: "prepare_permute (nprices - lookback) w c0 = Inr c"
      "work_area_of (nprices - lookback) c"
    using prepare_permute_derives [OF w(2)] by blast
  define v0 where "v0 = \<lparr>v_prices = p, v_changes = c, v_rng = g, v_cells = u_cells u,
      original = u_original u,
      original_trend_component = u_original_trend_component u,
      original_nlong = u_original_nlong u, mcpt_count = u_count u,
      mean_training_bias = u_mean_training_bias u, printed = []\<rparr>"
  have "ready nprices lookback v0" using wp c(2) by (simp add: ready_def v0_def)
  then obtain v1 l0 where f: "mcpt_rep 0 nprices lookback tpr v0 = Inr v1"
      "ready nprices lookback v1" "v_prices v1 = v_prices v0" "v_rng v1 = v_rng v0"
      "printed v1 = printed v0 @ [l0]" "l_irep l0 = 0" "original v1 = l_opt_return l0"
      "mcpt_count v1 = 1" "mean_training_bias v1 = 0"
    using mcpt_rep_first [OF assms(2), of nprices v0 tpr] by blast
  obtain v new where t: "mcpt_loop 1 nreps nprices lookback tpr v1 = Inr v"
      "ready nprices lookback v" "original v = original v1"
      "printed v = printed v1 @ new" "map l_irep new = [1..nreps - 1]"
      "mcpt_count v =
         mcpt_count v1 + int (length (filter (\<lambda>l. l_opt_return l \<ge> original v1) new))"
      "\<not> 1 < nreps \<longrightarrow> v = v1"
    using mcpt_loop_trials [OF assms(2) np(2) _ f(2), of 1 nreps tpr] by auto
  have loop: "mcpt_loop 0 nreps nprices lookback tpr v0 = Inr v"
    using assms(1) f(1) t(1) by (simp add: mcpt_loop.simps [of 0])
  obtain s where s: "mcpt_report nreps nprices lookback v = Inr s"
     "s_original s = original v"
     "s_p_value s = fdiv (real_of_int (mcpt_count v)) (real_of_int nreps)"
     "s_training_bias s = fdiv (mean_training_bias v) (real_of_int (nreps - 1))"
     "s_unbiased_return s = map_option (\<lambda>m. original v - m) (s_training_bias s)"
     "s_skill s = map_option (\<lambda>x. x - original_trend_component v) (s_unbiased_return s)"
    using mcpt_report_in [of nprices v lookback nreps] t(2) np by (auto simp: ready_def)
  have run: "mcpt lookback nreps p g u = Inr (s, v)"
    using np(1) rd1 w(1) c(1) loop [unfolded tpr_def v0_def] s(1)
    unfolding mcpt_def Let_def nprices_def [symmetric] c0_def [symmetric]
    by simp
  have "printed v = l0 # new" using t(4) f(5) by (simp add: v0_def)
  moreover have "map l_irep (l0 # new) = [0..nreps - 1]"
    using f(6) t(5) assms(1) by (simp add: upto_rec1 [of 0 "nreps - 1"])
  moreover have "mcpt_count v =
       1 + int (length (filter (\<lambda>l. l_opt_return l \<ge> l_opt_return l0) new))"
    using t(6) f(7,8) by simp
  moreover have "original v = l_opt_return l0" using t(3) f(7) by simp
  moreover have "nreps = 1 \<longrightarrow> v_prices v = p \<and> v_rng v = g \<and> mean_training_bias v = 0"
    using t(7) f(3,4,9) by (simp add: v0_def)
  ultimately show ?thesis using run s(2-6) by blast
qed

lemma bars11_fit:
  "(1::int) \<le> 1" "10 \<le> int (length (p_open bars11)) - 1"
  "window_of (int (length (p_open bars11))) bars11"
  by (simp_all add: bars11_def window_of_def)

text \<open>
  Claim C1. A run with \<open>nreps \<ge> 1\<close> replications, on a series long enough for the
  lookback, prints one line per replication, numbered from 0 to \<open>nreps - 1\<close>. The count
  is 1 (for the baseline) plus the number of lines after the first whose return is at
  least the baseline's return; the p-value reported is the count divided by \<open>nreps\<close>; it
  is greater than 0 and at most 1, and the count is at least 1.
\<close>

theorem mcpt_p_value:
  assumes "1 \<le> nreps" and "1 \<le> lookback"
    and "10 \<le> int (length (p_open p)) - lookback"
    and "window_of (int (length (p_open p))) p"
  shows "\<exists>s v. mcpt lookback nreps p g u = Inr (s, v) \<and>
     map l_irep (printed v) = [0..nreps - 1] \<and>
     s_original s = l_opt_return (hd (printed v)) \<and>
     mcpt_count v =
       1 + int (length (filter (\<lambda>l. l_opt_return l \<ge> s_original s) (tl (printed v)))) \<and>
     s_p_value s = Some (real_of_int (mcpt_count v) / real_of_int nreps) \<and>
     0 < real_of_int (mcpt_count v) / real_of_int nreps \<and>
     real_of_int (mcpt_count v) / real_of_int nreps \<le> 1 \<and>
     1 \<le> mcpt_count v"
proof -
  obtain s v l0 new where r: "mcpt lookback nreps p g u = Inr (s, v)"
     "printed v = l0 # new" "map l_irep (l0 # new) = [0..nreps - 1]"
     "original v = l_opt_return l0"
     "mcpt_count v =
       1 + int (length (filter (\<lambda>l. l_opt_return l \<ge> l_opt_return l0) new))"
     "s_original s = original v"
     "s_p_value s = fdiv (real_of_int (mcpt_count v)) (real_of_int nreps)"
    using mcpt_runs [OF assms, of g u] by blast
  have "length (map l_irep (l0 # new)) = length [0..nreps - 1]" using r(3) by simp
  then have len: "int (length new) = nreps - 1" using assms(1) by simp
  have "int (length (filter (\<lambda>l. l_opt_return l \<ge> l_opt_return l0) new)) \<le> int (length new)"
    by simp
  then have cnt: "1 \<le> mcpt_count v" "mcpt_count v \<le> nreps" using r(5) len by simp_all
  then have "0 < real_of_int (mcpt_count v) / real_of_int nreps"
    "real_of_int (mcpt_count v) / real_of_int nreps \<le> 1"
    using assms(1) by simp_all
  moreover have "s_p_value s = Some (real_of_int (mcpt_count v) / real_of_int nreps)"
    using r(7) assms(1) by (simp add: fdiv_def)
  moreover have "mcpt_count v =
       1 + int (length (filter (\<lambda>l. l_opt_return l \<ge> s_original s) (tl (printed v))))"
    using r(2,4,5,6) by simp
  moreover have "s_original s = l_opt_return (hd (printed v))" using r(2,4,6) by simp
  ultimately show ?thesis using r(1,2,3) cnt(1) by auto
qed

text \<open>Claim C1 on the series of 11 bars, with a lookback of 1 and three replications.\<close>

theorem mcpt_p_value_witness:
  "\<exists>s v. mcpt 1 3 bars11 mwc256_start uninit0 = Inr (s, v) \<and>
     map l_irep (printed v) = [0, 1, 2] \<and>
     s_p_value s = Some (real_of_int (mcpt_count v) / 3) \<and>
     0 < real_of_int (mcpt_count v) / 3 \<and> real_of_int (mcpt_count v) / 3 \<le> 1 \<and>
     1 \<le> mcpt_count v"
proof -
  have "[0..3 - 1] = [0, 1, 2 :: int]" by (simp add: upto_rec1)
  then show ?thesis
    using mcpt_p_value [OF _ bars11_fit, of 3 mwc256_start uninit0] by auto
qed

text \<open>
  Claim C9 as stated fails: with one replication the run reaches
  \<^verbatim>\<open>mean_training_bias /= (nreps - 1)\<close> and divides by \<open>nreps - 1 = 0\<close>. On the series
  of 11 bars the training bias, the unbiased return and the skill reported are no
  numbers.
\<close>

theorem mcpt_single_replication_divides_by_zero:
  "\<exists>s v. mcpt 1 1 bars11 mwc256_start uninit0 = Inr (s, v) \<and>
     s_training_bias s = fdiv (mean_training_bias v) (real_of_int (1 - 1)) \<and>
     s_training_bias s = None \<and> s_unbiased_return s = None \<and> s_skill s = None"
proof -
  obtain s v where r: "mcpt 1 1 bars11 mwc256_start uninit0 = Inr (s, v)"
     "s_training_bias s = fdiv (mean_training_bias v) (real_of_int (1 - 1))"
     "s_unbiased_return s = map_option (\<lambda>m. original v - m) (s_training_bias s)"
     "s_skill s = map_option (\<lambda>x. x - original_trend_component v) (s_unbiased_return s)"
    using mcpt_runs [OF _ bars11_fit, of 1 mwc256_start uninit0] by auto
  moreover have "s_training_bias s = None" using r(2) by (simp add: fdiv_def)
  ultimately show ?thesis by auto
qed

text \<open>
  Claim C9, amended. A run with one replication executes the baseline replication only
  (one line is printed, the prices and the generator are as before the run), and then
  divides by \<open>nreps - 1 = 0\<close>: the division is neither guarded nor unreachable, and the
  training bias, the unbiased return and the skill reported are no numbers, while the
  p-value is 1. The mean training bias is a number exactly when there are at least two
  replications.
\<close>

theorem mcpt_single_replication:
  assumes "1 \<le> nreps" and "1 \<le> lookback"
    and "10 \<le> int (length (p_open p)) - lookback"
    and "window_of (int (length (p_open p))) p"
  shows "\<exists>s v. mcpt lookback nreps p g u = Inr (s, v) \<and>
     (s_training_bias s = None \<longleftrightarrow> nreps = 1) \<and>
     (nreps = 1 \<longrightarrow>
        length (printed v) = 1 \<and> v_prices v = p \<and> v_rng v = g \<and>
        s_p_value s = Some 1 \<and> s_unbiased_return s = None \<and> s_skill s = None)"
proof -
  obtain s v l0 new where r: "mcpt lookback nreps p g u = Inr (s, v)"
     "printed v = l0 # new" "map l_irep (l0 # new) = [0..nreps - 1]"
     "mcpt_count v =
       1 + int (length (filter (\<lambda>l. l_opt_return l \<ge> l_opt_return l0) new))"
     "s_p_value s = fdiv (real_of_int (mcpt_count v)) (real_of_int nreps)"
     "s_training_bias s = fdiv (mean_training_bias v) (real_of_int (nreps - 1))"
     "s_unbiased_return s = map_option (\<lambda>m. original v - m) (s_training_bias s)"
     "s_skill s = map_option (\<lambda>x. x - original_trend_component v) (s_unbiased_return s)"
     "nreps = 1 \<longrightarrow> v_prices v = p \<and> v_rng v = g \<and> mean_training_bias v = 0"
    using mcpt_runs [OF assms, of g u] by blast
  have "length (map l_irep (l0 # new)) = length [0..nreps - 1]" using r(3) by simp
  then have len: "int (length new) = nreps - 1" using assms(1) by simp
  have a: "s_training_bias s = None \<longleftrightarrow> nreps = 1" using r(6) by (simp add: fdiv_def)
  have "length (printed v) = 1 \<and> v_prices v = p \<and> v_rng v = g \<and>
        s_p_value s = Some 1 \<and> s_unbiased_return s = None \<and> s_skill s = None"
    if one: "nreps = 1"
  proof -
    have "new = []" using len one by simp
    then have "length (printed v) = 1" "mcpt_count v = 1" using r(2,4) by simp_all
    then show ?thesis using one a r(5,7,8,9) by (simp add: fdiv_def)
  qed
  then show ?thesis using r(1) a by (intro exI [of _ s] exI [of _ v]) simp
qed

text \<open>Claim C9, amended, on the series of 11 bars with one replication.\<close>

theorem mcpt_single_replication_witness:
  "\<exists>s v. mcpt 1 1 bars11 mwc256_zero uninit0 = Inr (s, v) \<and>
     length (printed v) = 1 \<and> v_prices v = bars11 \<and> v_rng v = mwc256_zero \<and>
     s_p_value s = Some 1 \<and> s_training_bias s = None \<and> s_unbiased_return s = None \<and>
     s_skill s = None"
  using mcpt_single_replication [OF _ bars11_fit, of 1 mwc256_zero uninit0] by auto

end
